theory Spec2Isabelle
  imports Main "HOL-Library.Word"
begin

section \<open>s3up: a shallow embedding of the uploader core\<close>

text \<open>
  The development follows the Go sources of s3up.  Each definition names the source
  function it embeds.  Go's \<open>error\<close> interface values are the datatype \<open>error\<close>,
  with \<open>None\<close> of \<open>error option\<close> for \<open>nil\<close>.
\<close>

type_synonym byte = "8 word"

datatype error =
    EOF \<comment> \<open>\<open>io.EOF\<close>\<close>
  | ErrMaxPartID \<comment> \<open>\<open>errors.New("partID limit reached")\<close>, s3_upload_parts.go\<close>
  | ErrClosed \<comment> \<open>\<open>os.ErrClosed\<close>: "file already closed"\<close>
  | ErrTimeout \<comment> \<open>\<open>errors.New("timeout")\<close>, s3_uploader.go\<close>
  | ErrOutOfOrderStart int int
      \<comment> \<open>\<open>fmt.Errorf("out-of-order partID: started at %d (expected %d)", \<dots>)\<close>\<close>
  | ErrOutOfOrder int int int
      \<comment> \<open>\<open>fmt.Errorf("out-of-order partID: %d -> %d (expected %d)", \<dots>)\<close>\<close>
  | Failure string \<comment> \<open>any other error of a collaborator (reader, file system, server)\<close>
  | Wrapped string error \<comment> \<open>\<open>fmt.Errorf("<prefix>: %w", err)\<close>\<close>
  | WrappedPart int error \<comment> \<open>\<open>fmt.Errorf("upload part %d error: %w", k, err)\<close>\<close>
  | Joined "error list" \<comment> \<open>the value of \<open>errors.Join\<close> on a non-empty list\<close>
  | Panic string
      \<comment> \<open>a run-time panic (nil dereference, index or slice bounds out of range): not an
         error value in Go, listed so that a panicking call has a result\<close>

text \<open>
  \<open>errors.Is(err, target)\<close> for the comparable errors above: \<open>err\<close> itself, or an error
  it wraps (through \<open>%w\<close> or \<open>errors.Join\<close>), equals \<open>target\<close>.
\<close>

fun errors_Is :: "error \<Rightarrow> error \<Rightarrow> bool" where
  "errors_Is (Wrapped s e) t = (Wrapped s e = t \<or> errors_Is e t)"
| "errors_Is (WrappedPart k e) t = (WrappedPart k e = t \<or> errors_Is e t)"
| "errors_Is (Joined es) t = (Joined es = t \<or> (\<exists>e \<in> set es. errors_Is e t))"
| "errors_Is e t = (e = t)"

text \<open>
  \<open>errors.Join(errs...)\<close> on a list without nil entries (every caller below passes the
  result of \<open>Errors()\<close>, which appends non-nil errors only): nil for the empty list.
\<close>

definition errors_Join :: "error list \<Rightarrow> error option" where
  "errors_Join errs = (if errs = [] then None else Some (Joined errs))"

subsection \<open>S3UploadParts.NextPartID (s3_upload_parts.go)\<close>

text \<open>
  The two fields of \<open>S3UploadParts\<close> that \<open>NextPartID\<close> touches: the counter
  \<open>lastPartID\<close> and the cap \<open>opts.MaxPartID\<close>, both \<open>int32\<close>.
\<close>

record PartCounter =
  lastPartID :: "32 word"
  MaxPartID :: "32 word"

text \<open>\<open>NewS3UploadParts\<close> leaves \<open>lastPartID\<close> at its zero value.\<close>

definition NewPartCounter :: "32 word \<Rightarrow> PartCounter" where
  "NewPartCounter m = \<lparr>lastPartID = 0, MaxPartID = m\<rparr>"

text \<open>The Go result pair \<open>(int32, error)\<close> together with the updated receiver.\<close>

definition NextPartID :: "PartCounter \<Rightarrow> (32 word \<times> error option) \<times> PartCounter" where
  "NextPartID p =
     (if lastPartID p = MaxPartID p then ((0, Some ErrMaxPartID), p)
      else let p' = p\<lparr>lastPartID := lastPartID p + 1\<rparr>
           in ((lastPartID p', None), p'))"

text \<open>\<open>n\<close> successive calls: the results in call order, and the final receiver.\<close>

fun NextPartID_calls :: "nat \<Rightarrow> PartCounter \<Rightarrow> (32 word \<times> error option) list \<times> PartCounter" where
  "NextPartID_calls 0 p = ([], p)"
| "NextPartID_calls (Suc n) p =
     (let (r, p') = NextPartID p; (rs, p'') = NextPartID_calls n p' in (r # rs, p''))"

subsection \<open>hash.Hash and HashSum\<close>

text \<open>
  The Go type \<open>hash.Hash\<close> comes from the standard library.  A hash object is
  determined by its digest function and by the bytes written to it so far: \<open>Write\<close>
  appends, \<open>Sum(nil)\<close> is the digest of everything written.  The digest function itself
  (MD5, CRC32, CRC32C, SHA1, SHA256) is a parameter of the model.
\<close>

type_synonym HashSum = "byte list"

record Hash =
  Hash_digest :: "byte list \<Rightarrow> HashSum"
  Hash_written :: "byte list"

definition Hash_New :: "(byte list \<Rightarrow> HashSum) \<Rightarrow> Hash" where
  "Hash_New f = \<lparr>Hash_digest = f, Hash_written = []\<rparr>"

definition Hash_Write :: "Hash \<Rightarrow> byte list \<Rightarrow> Hash" where
  "Hash_Write h b = h\<lparr>Hash_written := Hash_written h @ b\<rparr>"

definition Hash_Sum :: "Hash \<Rightarrow> HashSum" where
  "Hash_Sum h = Hash_digest h (Hash_written h)"

datatype ChecksumAlgorithm =
  ChecksumAlgorithmMD5 | ChecksumAlgorithmCRC32 | ChecksumAlgorithmCRC32C
  | ChecksumAlgorithmSHA1 | ChecksumAlgorithmSHA256

text \<open>
  \<open>NewHasher\<close> maps an algorithm to the constructor of its \<open>hash.Hash\<close>; here it maps
  an algorithm to its digest function.
\<close>

type_synonym Hasher = "ChecksumAlgorithm \<Rightarrow> byte list \<Rightarrow> HashSum"

subsection \<open>HashParts (hash_parts.go)\<close>

record HashPart =
  HashPart_n :: int \<comment> \<open>\<open>n int64\<close>: bytes written to this part\<close>
  HashPart_h :: Hash

text \<open>
  \<open>HashParts.p\<close> is either nil or points at the part appended last to \<open>HashParts.h\<close>
  (the only two assignments to it in the source); the model keeps the flag
  \<open>HashParts_p\<close> (\<open>p \<noteq> nil\<close>) and reads and writes the current part as the last
  element of \<open>HashParts_h\<close>.
\<close>

record HashParts =
  HashParts_partSize :: int
  HashParts_checksumAlgorithm :: ChecksumAlgorithm
  HashParts_hasher :: "byte list \<Rightarrow> HashSum"
  HashParts_p :: bool
  HashParts_h :: "HashPart list"

definition NewHashParts :: "Hasher \<Rightarrow> ChecksumAlgorithm \<Rightarrow> int \<Rightarrow> HashParts" where
  "NewHashParts H algo partSize =
     \<lparr>HashParts_partSize = partSize, HashParts_checksumAlgorithm = algo,
      HashParts_hasher = H algo, HashParts_p = False, HashParts_h = []\<rparr>"

definition HashParts_Count :: "HashParts \<Rightarrow> nat" where
  "HashParts_Count hp = length (HashParts_h hp)"

text \<open>
  \<open>PartSize\<close> and \<open>Sum\<close> index \<open>hp.h[int(partID)-1]\<close>; an index out of range panics,
  which is \<open>None\<close> here.
\<close>

definition HashParts_PartSize :: "HashParts \<Rightarrow> int \<Rightarrow> int option" where
  "HashParts_PartSize hp partID =
     (if 1 \<le> partID \<and> partID \<le> int (length (HashParts_h hp))
      then Some (HashPart_n (HashParts_h hp ! nat (partID - 1))) else None)"

definition HashParts_Sum :: "HashParts \<Rightarrow> int \<Rightarrow> HashSum option" where
  "HashParts_Sum hp partID =
     (if 1 \<le> partID \<and> partID \<le> int (length (HashParts_h hp))
      then Some (Hash_Sum (HashPart_h (HashParts_h hp ! nat (partID - 1)))) else None)"

definition HashParts_SumOfSums :: "HashParts \<Rightarrow> HashSum" where
  "HashParts_SumOfSums hp =
     Hash_Sum (foldl (\<lambda>hoh part. Hash_Write hoh (Hash_Sum (HashPart_h part)))
                 (Hash_New (HashParts_hasher hp)) (HashParts_h hp))"

text \<open>The allocation \<open>hp.p = &HashPart{n: 0, h: hp.hasher()}; hp.h = append(hp.h, hp.p)\<close>.\<close>

definition HashParts_alloc :: "HashParts \<Rightarrow> HashParts" where
  "HashParts_alloc hp =
     hp\<lparr>HashParts_p := True,
        HashParts_h := HashParts_h hp @
          [\<lparr>HashPart_n = 0, HashPart_h = Hash_New (HashParts_hasher hp)\<rparr>]\<rparr>"

text \<open>
  The \<open>for len(buf) > 0\<close> loop of \<open>Write\<close>.  The loop need not end (with
  \<open>partSize = 0\<close> it allocates parts forever), and \<open>buf[0:n]\<close> panics for a negative
  \<open>n\<close>; both are \<open>None\<close>.
\<close>

partial_function (option) HashParts_Write_loop :: "HashParts \<Rightarrow> byte list \<Rightarrow> HashParts option" where
  "HashParts_Write_loop hp buf =
     (if length buf > 0 then
        (let hp1 = (if \<not> HashParts_p hp then HashParts_alloc hp else hp)
         in if HashParts_h hp1 = [] then None
            else
              let cur = last (HashParts_h hp1);
                  n0 = int (length buf);
                  n = (if HashPart_n cur + n0 > HashParts_partSize hp1
                       then HashParts_partSize hp1 - HashPart_n cur else n0)
              in if n < 0 then None
                 else
                   let cur' = \<lparr>HashPart_n = HashPart_n cur + n,
                               HashPart_h = Hash_Write (HashPart_h cur) (take (nat n) buf)\<rparr>;
                       hp2 = hp1\<lparr>HashParts_h := butlast (HashParts_h hp1) @ [cur']\<rparr>;
                       hp3 = (if HashPart_n cur' = HashParts_partSize hp2
                              then hp2\<lparr>HashParts_p := False\<rparr> else hp2)
                   in HashParts_Write_loop hp3 (drop (nat n) buf))
      else Some hp)"

text \<open>\<open>Write\<close> returns \<open>(len(buf), nil)\<close>; the model returns the updated receiver.\<close>

definition HashParts_Write :: "HashParts \<Rightarrow> byte list \<Rightarrow> HashParts option" where
  "HashParts_Write hp buf =
     HashParts_Write_loop (if \<not> HashParts_p hp then HashParts_alloc hp else hp) buf"

subsection \<open>S3Hasher (s3_hasher.go)\<close>

record S3Hasher =
  S3Hasher_algo :: ChecksumAlgorithm
  S3Hasher_size :: int
  S3Hasher_full_algo :: Hash
  S3Hasher_algo_parts :: HashParts
  S3Hasher_full_md5 :: Hash
  S3Hasher_md5_parts :: HashParts

definition NewS3Hasher :: "Hasher \<Rightarrow> ChecksumAlgorithm \<Rightarrow> int \<Rightarrow> S3Hasher" where
  "NewS3Hasher H algo partSize =
     \<lparr>S3Hasher_algo = algo, S3Hasher_size = partSize,
      S3Hasher_full_algo = Hash_New (H algo),
      S3Hasher_algo_parts = NewHashParts H algo partSize,
      S3Hasher_full_md5 = Hash_New (H ChecksumAlgorithmMD5),
      S3Hasher_md5_parts = NewHashParts H ChecksumAlgorithmMD5 partSize\<rparr>"

definition S3Hasher_write :: "S3Hasher \<Rightarrow> byte list \<Rightarrow> S3Hasher option" where
  "S3Hasher_write hr b =
     (case HashParts_Write (S3Hasher_algo_parts hr) b of
        None \<Rightarrow> None
      | Some ap \<Rightarrow>
          (case HashParts_Write (S3Hasher_md5_parts hr) b of
             None \<Rightarrow> None
           | Some mp \<Rightarrow>
               Some (hr\<lparr>S3Hasher_full_algo := Hash_Write (S3Hasher_full_algo hr) b,
                        S3Hasher_algo_parts := ap,
                        S3Hasher_full_md5 := Hash_Write (S3Hasher_full_md5 hr) b,
                        S3Hasher_md5_parts := mp\<rparr>)))"

text \<open>A sequence of writes \<open>w\<^sub>1 \<dots> w\<^sub>k\<close>, in order.\<close>

fun HashParts_writes :: "HashParts \<Rightarrow> byte list list \<Rightarrow> HashParts option" where
  "HashParts_writes hp [] = Some hp"
| "HashParts_writes hp (w # ws) =
     (case HashParts_Write hp w of None \<Rightarrow> None | Some hp' \<Rightarrow> HashParts_writes hp' ws)"

fun S3Hasher_writes :: "S3Hasher \<Rightarrow> byte list list \<Rightarrow> S3Hasher option" where
  "S3Hasher_writes hr [] = Some hr"
| "S3Hasher_writes hr (w # ws) =
     (case S3Hasher_write hr w of None \<Rightarrow> None | Some hr' \<Rightarrow> S3Hasher_writes hr' ws)"

definition S3Hasher_ChecksumAlgorithm :: "S3Hasher \<Rightarrow> ChecksumAlgorithm" where
  "S3Hasher_ChecksumAlgorithm hr = HashParts_checksumAlgorithm (S3Hasher_algo_parts hr)"

definition S3Hasher_Count :: "S3Hasher \<Rightarrow> nat" where
  "S3Hasher_Count hr = HashParts_Count (S3Hasher_algo_parts hr)"

definition S3Hasher_Sum :: "S3Hasher \<Rightarrow> HashSum" where
  "S3Hasher_Sum hr = Hash_Sum (S3Hasher_full_algo hr)"

definition S3Hasher_PartSize :: "S3Hasher \<Rightarrow> int \<Rightarrow> int option" where
  "S3Hasher_PartSize hr partID = HashParts_PartSize (S3Hasher_algo_parts hr) partID"

definition S3Hasher_SumPart :: "S3Hasher \<Rightarrow> int \<Rightarrow> HashSum option" where
  "S3Hasher_SumPart hr partID = HashParts_Sum (S3Hasher_algo_parts hr) partID"

definition S3Hasher_SumOfSums :: "S3Hasher \<Rightarrow> HashSum" where
  "S3Hasher_SumOfSums hr = HashParts_SumOfSums (S3Hasher_algo_parts hr)"

definition S3Hasher_MD5Sum :: "S3Hasher \<Rightarrow> HashSum" where
  "S3Hasher_MD5Sum hr = Hash_Sum (S3Hasher_full_md5 hr)"

definition S3Hasher_MD5SumPart :: "S3Hasher \<Rightarrow> int \<Rightarrow> HashSum option" where
  "S3Hasher_MD5SumPart hr partID = HashParts_Sum (S3Hasher_md5_parts hr) partID"

text \<open>\<open>Size\<close> adds up \<open>PartSize(i + 1)\<close> for \<open>0 \<le> i < Count()\<close>.\<close>

definition S3Hasher_Size :: "S3Hasher \<Rightarrow> int" where
  "S3Hasher_Size hr = sum_list (map HashPart_n (HashParts_h (S3Hasher_algo_parts hr)))"

subsection \<open>The bytes routed to each part\<close>

text \<open>
  \<open>HashParts_contents\<close> lists, part by part, the bytes written to each part's hash.
  \<open>HashParts_inv\<close> is the invariant that \<open>Write\<close> maintains: every part counts its own
  bytes and uses the configured digest, every part but the last is full, and \<open>p\<close> is
  non-nil exactly when the last part has room left.
\<close>

definition HashParts_contents :: "HashParts \<Rightarrow> byte list list" where
  "HashParts_contents hp = map (\<lambda>part. Hash_written (HashPart_h part)) (HashParts_h hp)"

definition HashParts_inv :: "HashParts \<Rightarrow> bool" where
  "HashParts_inv hp \<longleftrightarrow>
     0 < HashParts_partSize hp \<and>
     (\<forall>part \<in> set (HashParts_h hp).
        HashPart_n part = int (length (Hash_written (HashPart_h part))) \<and>
        Hash_digest (HashPart_h part) = HashParts_hasher hp) \<and>
     (\<forall>c \<in> set (butlast (HashParts_contents hp)). int (length c) = HashParts_partSize hp) \<and>
     (HashParts_contents hp \<noteq> [] \<longrightarrow>
        int (length (last (HashParts_contents hp))) \<le> HashParts_partSize hp) \<and>
     (HashParts_p hp \<longleftrightarrow>
        HashParts_contents hp \<noteq> [] \<and>
        int (length (last (HashParts_contents hp))) < HashParts_partSize hp)"

subsection \<open>Requests and responses of the S3 client\<close>

text \<open>
  The wire types come from the AWS SDK; the records keep the fields the program reads or
  writes.  A checksum field holds the \<open>HashSum\<close> whose \<open>Base64()\<close> rendering the source
  stores (the rendering is injective).  The four \<open>Checksum<Algo>\<close> fields of a request are
  one optional pair: the \<open>switch\<close> on the algorithm sets the field of CRC32, CRC32C, SHA1
  or SHA256 and none for MD5.  \<open>ContentType\<close> is left out.
\<close>

definition checksum_field :: "ChecksumAlgorithm \<Rightarrow> HashSum \<Rightarrow> (ChecksumAlgorithm \<times> HashSum) option" where
  "checksum_field algo hsum =
     (case algo of ChecksumAlgorithmMD5 \<Rightarrow> None | _ \<Rightarrow> Some (algo, hsum))"

record PutObjectInput =
  PutObjectInput_Bucket :: string
  PutObjectInput_Key :: string
  PutObjectInput_Body :: "byte list"
  PutObjectInput_ContentMD5 :: HashSum
  PutObjectInput_Checksum :: "(ChecksumAlgorithm \<times> HashSum) option"

record CreateMultipartUploadInput =
  CreateInput_Bucket :: string
  CreateInput_Key :: string
  CreateInput_ChecksumAlgorithm :: ChecksumAlgorithm

record UploadPartInput =
  UploadPartInput_Bucket :: string
  UploadPartInput_Key :: string
  UploadPartInput_UploadId :: "string option"
  UploadPartInput_PartNumber :: int
  UploadPartInput_Body :: "byte list"
  UploadPartInput_ContentMD5 :: "HashSum option"
  UploadPartInput_Checksum :: "(ChecksumAlgorithm \<times> HashSum) option"

record CompletedPart =
  CompletedPart_ETag :: "string option"
  CompletedPart_PartNumber :: int
  CompletedPart_Checksum :: "(ChecksumAlgorithm \<times> HashSum) option"

record CompleteMultipartUploadInput =
  CompleteInput_Bucket :: string
  CompleteInput_Key :: string
  CompleteInput_UploadId :: "string option"
  CompleteInput_Parts :: "CompletedPart list"

record AbortMultipartUploadInput =
  AbortInput_Bucket :: string
  AbortInput_Key :: string
  AbortInput_UploadId :: "string option"

text \<open>Responses: a pointer that may be nil; \<open>ETag\<close> and \<open>UploadId\<close> are \<open>*string\<close>.\<close>

type_synonym PutObjectOutput = "string option"
type_synonym CreateMultipartUploadOutput = "string option"
type_synonym UploadPartOutput = "string option"
type_synonym CompleteMultipartUploadOutput = "string option"
type_synonym AbortMultipartUploadOutput = unit
type_synonym GetObjectAttributesOutput = "string option"

text \<open>
  The S3 client is the environment: each operation maps a request to the pair
  \<open>(output, error)\<close> the SDK call returns.
\<close>

record S3Client =
  s3_PutObject :: "PutObjectInput \<Rightarrow> PutObjectOutput option \<times> error option"
  s3_CreateMultipartUpload ::
    "CreateMultipartUploadInput \<Rightarrow> CreateMultipartUploadOutput option \<times> error option"
  s3_UploadPart :: "UploadPartInput \<Rightarrow> UploadPartOutput option \<times> error option"
  s3_CompleteMultipartUpload ::
    "CompleteMultipartUploadInput \<Rightarrow> CompleteMultipartUploadOutput option \<times> error option"
  s3_AbortMultipartUpload ::
    "AbortMultipartUploadInput \<Rightarrow> AbortMultipartUploadOutput option \<times> error option"
  s3_GetObjectAttributes ::
    "string \<Rightarrow> string \<Rightarrow> GetObjectAttributesOutput option \<times> error option"

text \<open>The requests a run sends, in order.\<close>

datatype wire_call =
    CallPutObject PutObjectInput
  | CallCreateMultipartUpload CreateMultipartUploadInput
  | CallUploadPart UploadPartInput
  | CallCompleteMultipartUpload CompleteMultipartUploadInput
  | CallAbortMultipartUpload AbortMultipartUploadInput
  | CallGetObjectAttributes string string

subsection \<open>S3UploadState (s3_hasher.go)\<close>

text \<open>
  A Go map is an association list with distinct keys; the order of the list stands for
  the order in which \<open>range\<close> visits the entries, which Go leaves unspecified.
  \<open>map_store\<close> is the assignment \<open>m[k] = v\<close>.
\<close>

fun map_store :: "'k \<Rightarrow> 'v \<Rightarrow> ('k \<times> 'v) list \<Rightarrow> ('k \<times> 'v) list" where
  "map_store k v [] = [(k, v)]"
| "map_store k v ((k', v') # m) =
     (if k' = k then (k, v) # m else (k', v') # map_store k v m)"


text \<open>
  \<open>hr\<close> is a pointer to the hasher that \<open>upload\<close> keeps writing to; the record holds
  the hasher's value at the time the state is read.  \<open>mu\<close> is a \<open>*sync.Mutex\<close>: \<open>None\<close>
  is the nil pointer.  No statement of the program assigns this field: both places that
  build an \<open>S3UploadState\<close> (\<open>NewS3UploadParts\<close> and \<open>putObject\<close>) leave it at its zero
  value.
\<close>

datatype Mutex = Mutex

record S3UploadState =
  st_hr :: S3Hasher
  st_obj :: "PutObjectInput option"
  st_objOutput :: "PutObjectOutput option"
  st_objError :: "error option"
  st_create :: "CreateMultipartUploadInput option"
  st_createOutput :: "CreateMultipartUploadOutput option"
  st_uploadPartOutputs :: "(int \<times> UploadPartOutput option) list"
  st_uploadPartErrors :: "(int \<times> error option) list"
  st_completedOutput :: "CompleteMultipartUploadOutput option"
  st_completedError :: "error option"
  st_abortedOutput :: "AbortMultipartUploadOutput option"
  st_abortedError :: "error option"
  st_objectAttributesOutput :: "GetObjectAttributesOutput option"
  st_objectAttributesError :: "error option"
  st_mu :: "Mutex option"

text \<open>\<open>S3UploadState.Errors\<close>: the wrapped non-nil errors, in the order of the source.\<close>

definition Errors :: "S3UploadState \<Rightarrow> error list" where
  "Errors p =
     (case st_objError p of None \<Rightarrow> [] | Some e \<Rightarrow> [Wrapped ''put-object error'' e]) @
     concat (map (\<lambda>(k, v). case v of None \<Rightarrow> []
                   | Some e \<Rightarrow> [WrappedPart k e]) (st_uploadPartErrors p)) @
     (case st_completedError p of None \<Rightarrow> []
      | Some e \<Rightarrow> [Wrapped ''complete multi-part upload error'' e]) @
     (case st_abortedError p of None \<Rightarrow> []
      | Some e \<Rightarrow> [Wrapped ''abort multi-part upload error'' e])"

text \<open>
  A panic is not a value that a Go function returns: it unwinds the callers and, in a
  goroutine without \<open>recover\<close> (the program has none), ends the process.  In the
  functions below a result whose error is \<open>Panic s\<close> stands for the panic; every caller
  passes it on and does nothing else.
\<close>

fun is_panic :: "error option \<Rightarrow> bool" where
  "is_panic (Some (Panic s)) = True"
| "is_panic e = False"

text \<open>
  \<open>setPartResults\<close> begins with \<open>p.mu.Lock()\<close>, which dereferences \<open>mu\<close>: a nil
  pointer dereference when \<open>mu\<close> is nil.  Otherwise it stores the two results.
\<close>

definition setPartResults ::
    "S3UploadState \<Rightarrow> int \<Rightarrow> UploadPartOutput option \<Rightarrow> error option \<Rightarrow> error + S3UploadState" where
  "setPartResults p partID out err =
     (case st_mu p of
        None \<Rightarrow> Inl (Panic ''nil pointer dereference'')
      | Some mu \<Rightarrow>
          Inr (p\<lparr>st_uploadPartOutputs := map_store partID out (st_uploadPartOutputs p),
                 st_uploadPartErrors := map_store partID err (st_uploadPartErrors p)\<rparr>))"

text \<open>
  The first loop of \<open>completeParts\<close>: one \<open>CompletedPart\<close> per recorded output.
  \<open>out.ETag\<close> panics on a nil output and \<open>SumPart\<close> on a part the hasher does not have.
\<close>

fun completeParts_collect ::
    "S3Hasher \<Rightarrow> (int \<times> UploadPartOutput option) list \<Rightarrow> error + CompletedPart list" where
  "completeParts_collect hr [] = Inr []"
| "completeParts_collect hr ((partID, out) # m) =
     (case out of
        None \<Rightarrow> Inl (Panic ''nil pointer dereference'')
      | Some etag \<Rightarrow>
          (case S3Hasher_SumPart hr partID of
             None \<Rightarrow> Inl (Panic ''index out of range'')
           | Some hsum \<Rightarrow>
               (case completeParts_collect hr m of
                  Inl e \<Rightarrow> Inl e
                | Inr cps \<Rightarrow>
                    Inr (\<lparr>CompletedPart_ETag = etag, CompletedPart_PartNumber = partID,
                          CompletedPart_Checksum =
                            checksum_field (S3Hasher_ChecksumAlgorithm hr) hsum\<rparr> # cps))))"

text \<open>
  The density loop \<open>for i := 1; i < len(completedParts); i++\<close>, entered at index \<open>i\<close>
  with the parts from index \<open>i\<close> on.
\<close>

fun completeParts_check :: "nat \<Rightarrow> CompletedPart list \<Rightarrow> error option" where
  "completeParts_check i [] = None"
| "completeParts_check i (c # cs) =
     (if CompletedPart_PartNumber c \<noteq> int (i + 1)
      then Some (if i = 0
                 then ErrOutOfOrderStart (CompletedPart_PartNumber c) (int (i + 1))
                 else ErrOutOfOrder (int i) (CompletedPart_PartNumber c) (int (i + 1)))
      else completeParts_check (i + 1) cs)"

text \<open>
  \<open>completeParts\<close>: \<open>p.mu.Lock()\<close> first (a nil pointer dereference when \<open>mu\<close> is nil),
  then the collecting loop, the sort, the density loop and the request.
\<close>

definition completeParts :: "S3UploadState \<Rightarrow> error + CompleteMultipartUploadInput" where
  "completeParts p =
     (case st_mu p of
        None \<Rightarrow> Inl (Panic ''nil pointer dereference'')
      | Some mu \<Rightarrow>
     (case completeParts_collect (st_hr p) (st_uploadPartOutputs p) of
        Inl e \<Rightarrow> Inl e
      | Inr collected \<Rightarrow>
          (let completedParts = sort_key CompletedPart_PartNumber collected
           in case completeParts_check 1 (drop 1 completedParts) of
                Some err \<Rightarrow> Inl err
              | None \<Rightarrow>
                  (case (st_create p, st_createOutput p) of
                     (Some create, Some createOutput) \<Rightarrow>
                       Inr \<lparr>CompleteInput_Bucket = CreateInput_Bucket create,
                            CompleteInput_Key = CreateInput_Key create,
                            CompleteInput_UploadId = createOutput,
                            CompleteInput_Parts = completedParts\<rparr>
                   | _ \<Rightarrow> Inl (Panic ''nil pointer dereference'')))))"

text \<open>The state with every field at its zero value but the hasher.\<close>

definition S3UploadState_empty :: "S3Hasher \<Rightarrow> S3UploadState" where
  "S3UploadState_empty hr =
     \<lparr>st_hr = hr, st_obj = None, st_objOutput = None, st_objError = None,
      st_create = None, st_createOutput = None,
      st_uploadPartOutputs = [], st_uploadPartErrors = [],
      st_completedOutput = None, st_completedError = None,
      st_abortedOutput = None, st_abortedError = None,
      st_objectAttributesOutput = None, st_objectAttributesError = None,
      st_mu = None\<rparr>"

subsection \<open>Input readers\<close>

text \<open>
  An \<open>io.Reader\<close> is the script of what its successive \<open>Read\<close> calls will deliver: the
  event \<open>Ev bs err\<close> stands for bytes \<open>bs\<close> followed by the result \<open>err\<close>.  A \<open>Read\<close>
  into a buffer of \<open>k\<close> bytes returns the whole event if it fits and its first \<open>k\<close> bytes
  with a nil error otherwise; a reader whose script is used up returns \<open>(0, io.EOF)\<close>.
\<close>

datatype read_ev = Ev "byte list" "error option"

type_synonym Reader = "read_ev list"

fun Reader_Read :: "Reader \<Rightarrow> nat \<Rightarrow> (byte list \<times> error option) \<times> Reader" where
  "Reader_Read [] k = (([], Some EOF), [])"
| "Reader_Read (Ev bs e # r) k =
     (if length bs \<le> k then ((bs, e), r) else ((take k bs, None), Ev (drop k bs) e # r))"

text \<open>\<open>io.LimitReader(r, n)\<close> and its \<open>Read\<close>.\<close>

record LimitedReader =
  lr_R :: Reader
  lr_N :: int

definition LimitedReader_Read ::
    "LimitedReader \<Rightarrow> nat \<Rightarrow> (byte list \<times> error option) \<times> LimitedReader" where
  "LimitedReader_Read l k =
     (if lr_N l \<le> 0 then (([], Some EOF), l)
      else
        let k' = (if int k > lr_N l then nat (lr_N l) else k);
            ((bs, err), r') = Reader_Read (lr_R l) k'
        in ((bs, err), \<lparr>lr_R = r', lr_N = lr_N l - int (length bs)\<rparr>))"

subsection \<open>Temporary files and the part buffer pool\<close>

text \<open>
  The file system and \<open>sync.Pool\<close> are the environment.  A temporary file is its content
  and two flags: closed (\<open>os.File.Close\<close> was called) and removed (\<open>os.Remove\<close>
  succeeded); the two counters record how often each call was made on it.  \<open>os.File.Close\<close>
  returns an error when the file is already closed, and so do \<open>Write\<close>, \<open>Seek\<close> and
  \<open>ReadAt\<close> on a closed file.  \<open>w_faults\<close> says which file operation fails with which
  error: \<open>os.CreateTemp\<close> of the \<open>i\<close>-th file, a \<open>Write\<close> to file \<open>i\<close> at a given
  size, the \<open>Seek\<close> on file \<open>i\<close>.  The pool of part buffers is the number of idle
  buffers and the numbers of \<open>Get\<close> and \<open>Put\<close> calls.
\<close>

record TempFile =
  tf_content :: "byte list"
  tf_closed :: bool
  tf_removed :: bool
  tf_close_calls :: nat
  tf_remove_calls :: nat

datatype fs_op = OpCreateTemp nat | OpWrite nat nat | OpSeek nat

record World =
  w_files :: "TempFile list"
  w_faults :: "fs_op \<Rightarrow> error option"
  w_pool_idle :: nat
  w_pool_gets :: nat
  w_pool_puts :: nat

definition os_CreateTemp :: "World \<Rightarrow> (error + nat) \<times> World" where
  "os_CreateTemp w =
     (case w_faults w (OpCreateTemp (length (w_files w))) of
        Some e \<Rightarrow> (Inl e, w)
      | None \<Rightarrow>
          (Inr (length (w_files w)),
           w\<lparr>w_files := w_files w @
               [\<lparr>tf_content = [], tf_closed = False, tf_removed = False,
                 tf_close_calls = 0, tf_remove_calls = 0\<rparr>]\<rparr>))"

definition File_Write :: "World \<Rightarrow> nat \<Rightarrow> byte list \<Rightarrow> error option \<times> World" where
  "File_Write w fh bs =
     (if fh < length (w_files w) \<and> \<not> tf_closed (w_files w ! fh) then
        (case w_faults w (OpWrite fh (length (tf_content (w_files w ! fh)))) of
           Some e \<Rightarrow> (Some e, w)
         | None \<Rightarrow>
             (None, w\<lparr>w_files := (w_files w)
                  [fh := (w_files w ! fh)\<lparr>tf_content := tf_content (w_files w ! fh) @ bs\<rparr>]\<rparr>))
      else (Some ErrClosed, w))"

definition File_Seek :: "World \<Rightarrow> nat \<Rightarrow> error option" where
  "File_Seek w fh =
     (if fh < length (w_files w) \<and> \<not> tf_closed (w_files w ! fh)
      then w_faults w (OpSeek fh) else Some ErrClosed)"

definition File_ReadAll :: "World \<Rightarrow> nat \<Rightarrow> error + byte list" where
  "File_ReadAll w fh =
     (if fh < length (w_files w) \<and> \<not> tf_closed (w_files w ! fh)
      then Inr (tf_content (w_files w ! fh)) else Inl ErrClosed)"

definition File_Close :: "World \<Rightarrow> nat \<Rightarrow> error option \<times> World" where
  "File_Close w fh =
     (if fh < length (w_files w) then
        (let f = w_files w ! fh
         in (if tf_closed f then Some ErrClosed else None,
             w\<lparr>w_files := (w_files w)
                 [fh := f\<lparr>tf_closed := True, tf_close_calls := tf_close_calls f + 1\<rparr>]\<rparr>))
      else (Some ErrClosed, w))"

definition os_Remove :: "World \<Rightarrow> nat \<Rightarrow> error option \<times> World" where
  "os_Remove w fh =
     (if fh < length (w_files w) then
        (let f = w_files w ! fh
         in (if tf_removed f then Some (Failure ''no such file or directory'') else None,
             w\<lparr>w_files := (w_files w)
                 [fh := f\<lparr>tf_removed := True, tf_remove_calls := tf_remove_calls f + 1\<rparr>]\<rparr>))
      else (Some (Failure ''no such file or directory''), w))"

definition BufferPool_Get :: "World \<Rightarrow> World" where
  "BufferPool_Get w = w\<lparr>w_pool_idle := w_pool_idle w - 1, w_pool_gets := w_pool_gets w + 1\<rparr>"

definition BufferPool_Put :: "World \<Rightarrow> World" where
  "BufferPool_Put w = w\<lparr>w_pool_idle := w_pool_idle w + 1, w_pool_puts := w_pool_puts w + 1\<rparr>"

subsection \<open>SourceReader and its three backings (source.go)\<close>

text \<open>
  A \<open>SourceReader\<close> is a section reader with a closer.  Over a random-access input it is
  the section \<open>(r, off, n)\<close> and its closer does nothing; over a temporary file it is the
  handle with the section length, closed by \<open>tempfBuffer.Close\<close>; over memory it is the
  \<open>memBuffer\<close> (the pooled slice \<open>b\<close>, nil once returned, and the reader \<open>r\<close> over the
  same bytes) with the section length, closed by \<open>memBuffer.Close\<close>.
\<close>

record memBuffer =
  mb_b :: "byte list option"
  mb_r :: "byte list"

datatype SourceReader =
    ReaderAtSlice "byte list" int int
  | TempfSlice nat int
  | MemSlice memBuffer int

definition tempfBuffer_Close :: "World \<Rightarrow> nat \<Rightarrow> error option \<times> World" where
  "tempfBuffer_Close w fh =
     (let (err, w1) = File_Close w fh; (_, w2) = os_Remove w1 fh in (err, w2))"

definition memBuffer_Close :: "World \<Rightarrow> memBuffer \<Rightarrow> error option \<times> memBuffer \<times> World" where
  "memBuffer_Close w p =
     (if mb_b p \<noteq> None then (None, p\<lparr>mb_b := None\<rparr>, BufferPool_Put w) else (None, p, w))"

fun SourceReader_Close :: "World \<Rightarrow> SourceReader \<Rightarrow> error option \<times> SourceReader \<times> World" where
  "SourceReader_Close w (ReaderAtSlice r off n) = (None, ReaderAtSlice r off n, w)"
| "SourceReader_Close w (TempfSlice fh n) =
     (let (err, w') = tempfBuffer_Close w fh in (err, TempfSlice fh n, w'))"
| "SourceReader_Close w (MemSlice p n) =
     (let (err, p', w') = memBuffer_Close w p in (err, MemSlice p' n, w'))"

text \<open>All bytes of the section, as a reader of the slice obtains them from its start.\<close>

fun SourceReader_bytes :: "World \<Rightarrow> SourceReader \<Rightarrow> error + byte list" where
  "SourceReader_bytes w (ReaderAtSlice r off n) = Inr (take (nat n) (drop (nat off) r))"
| "SourceReader_bytes w (TempfSlice fh n) =
     (case File_ReadAll w fh of Inl e \<Rightarrow> Inl e | Inr bs \<Rightarrow> Inr (take (nat n) bs))"
| "SourceReader_bytes w (MemSlice p n) = Inr (take (nat n) (mb_r p))"

subsection \<open>The three sources (source.go)\<close>

text \<open>\<open>int64\<close> arithmetic wraps around.\<close>

definition int64 :: "int \<Rightarrow> int" where
  "int64 x = (x + 2 ^ 63) mod 2 ^ 64 - 2 ^ 63"

record readerAtSource =
  ras_r :: "byte list"
  ras_limit :: int
  ras_offset :: int
  ras_partSize :: int

record tempfSource =
  tfs_r :: Reader
  tfs_partSize :: int

record memSource =
  ms_r :: Reader
  ms_partSize :: int

definition readerAtSource_Next :: "readerAtSource \<Rightarrow> (error + SourceReader) \<times> readerAtSource" where
  "readerAtSource_Next p =
     (if ras_offset p \<ge> ras_limit p then (Inl EOF, p)
      else
        let sz = (if int64 (ras_offset p + ras_partSize p) > ras_limit p
                    then int64 (ras_limit p - ras_offset p) else ras_partSize p)
        in (Inr (ReaderAtSlice (ras_r p) (ras_offset p) sz),
            p\<lparr>ras_offset := int64 (ras_offset p + sz)\<rparr>))"

text \<open>
  The copy loop of \<open>tempfSource.Next\<close>, with a copy buffer of \<open>chunk\<close> bytes.  It returns
  the error that ends \<open>Next\<close> (nil after \<open>io.EOF\<close>), the bytes written, the reader and
  the world.  A write replaces the error of the read.  The loop need not end.
\<close>

partial_function (option) tempf_spool ::
    "nat \<Rightarrow> LimitedReader \<Rightarrow> nat \<Rightarrow> int \<Rightarrow> World \<Rightarrow>
       (error option \<times> int \<times> LimitedReader \<times> World) option" where
  "tempf_spool chunk lr fh sz w =
     (let ((bs, rerr), lr') = LimitedReader_Read lr chunk;
          (err, sz', w') =
            (if length bs > 0
             then (let (werr, w1) = File_Write w fh bs
                   in (werr, sz + (if werr = None then int (length bs) else 0), w1))
             else (rerr, sz, w))
      in case err of
           Some e \<Rightarrow>
             if \<not> errors_Is e EOF then Some (Some e, sz', lr', w')
             else Some (None, sz', lr', w')
         | None \<Rightarrow> tempf_spool chunk lr' fh sz' w')"

text \<open>\<open>cleanup\<close>: \<open>fh.Close(); os.Remove(fh.Name())\<close>, both results dropped.\<close>

definition tempf_cleanup :: "World \<Rightarrow> nat \<Rightarrow> World" where
  "tempf_cleanup w fh = (let (_, w1) = File_Close w fh; (_, w2) = os_Remove w1 fh in w2)"

definition tempfSource_Next ::
    "nat \<Rightarrow> tempfSource \<Rightarrow> World \<Rightarrow> ((error + SourceReader) \<times> tempfSource \<times> World) option" where
  "tempfSource_Next chunk p w =
     (case os_CreateTemp w of
        (Inl err, w1) \<Rightarrow> Some (Inl err, p, w1)
      | (Inr fh, w1) \<Rightarrow>
          (case tempf_spool chunk \<lparr>lr_R = tfs_r p, lr_N = tfs_partSize p\<rparr> fh 0 w1 of
             None \<Rightarrow> None
           | Some (serr, sz, lr', w2) \<Rightarrow>
               (let p' = p\<lparr>tfs_r := lr_R lr'\<rparr>
                in case serr of
                     Some err \<Rightarrow> Some (Inl err, p', tempf_cleanup w2 fh)
                   | None \<Rightarrow>
                       if sz = 0 then Some (Inl EOF, p', tempf_cleanup w2 fh)
                       else
                         (case File_Seek w2 fh of
                            Some err \<Rightarrow> Some (Inl err, p', tempf_cleanup w2 fh)
                          | None \<Rightarrow> Some (Inr (TempfSlice fh sz), p', w2)))))"

text \<open>
  The copy loop of \<open>memSource.Next\<close>: it ends at the first read that returns an error,
  whatever the error is, and returns the bytes appended to \<open>buf\<close> and the reader.
\<close>

partial_function (option) mem_spool ::
    "nat \<Rightarrow> LimitedReader \<Rightarrow> byte list \<Rightarrow> (byte list \<times> LimitedReader) option" where
  "mem_spool chunk lr buf =
     (let ((bs, err), lr') = LimitedReader_Read lr chunk;
          buf' = (if length bs > 0 then buf @ bs else buf)
      in if err \<noteq> None then Some (buf', lr') else mem_spool chunk lr' buf')"

text \<open>\<open>bufferPool.Get(size)\<close> slices \<open>buf[0:size]\<close>, which panics for a negative size.\<close>

definition memSource_Next ::
    "nat \<Rightarrow> memSource \<Rightarrow> World \<Rightarrow> ((error + SourceReader) \<times> memSource \<times> World) option" where
  "memSource_Next chunk p w =
     (if ms_partSize p < 0 then Some (Inl (Panic ''slice bounds out of range''), p, w)
      else
        (case mem_spool chunk \<lparr>lr_R = ms_r p, lr_N = ms_partSize p\<rparr> [] of
           None \<Rightarrow> None
         | Some (buf, lr') \<Rightarrow>
             (let p' = p\<lparr>ms_r := lr_R lr'\<rparr>; w1 = BufferPool_Get w
              in if length buf = 0 then Some (Inl EOF, p', BufferPool_Put w1)
                 else Some (Inr (MemSlice \<lparr>mb_b = Some buf, mb_r = buf\<rparr> (int (length buf))),
                            p', w1))))"

datatype Source = ReaderAtSource readerAtSource | TempfSource tempfSource | MemSource memSource

fun Source_Next ::
    "nat \<Rightarrow> Source \<Rightarrow> World \<Rightarrow> ((error + SourceReader) \<times> Source \<times> World) option" where
  "Source_Next chunk (ReaderAtSource p) w =
     (let (res, p') = readerAtSource_Next p in Some (res, ReaderAtSource p', w))"
| "Source_Next chunk (TempfSource p) w =
     map_option (\<lambda>(res, p', w'). (res, TempfSource p', w')) (tempfSource_Next chunk p w)"
| "Source_Next chunk (MemSource p) w =
     map_option (\<lambda>(res, p', w'). (res, MemSource p', w')) (memSource_Next chunk p w)"

text \<open>
  The input of \<open>TempfileSource\<close> and \<open>MemorySource\<close>: a reader that also implements
  \<open>io.ReaderAt\<close> and \<open>io.Seeker\<close> (its content; \<open>seekLimit\<close> is the content's length) or
  a plain \<open>io.Reader\<close>.
\<close>

datatype Input = RandomAccess "byte list" | Sequential Reader

definition TempfileSource :: "Input \<Rightarrow> int \<Rightarrow> Source" where
  "TempfileSource r partSize =
     (case r of
        RandomAccess content \<Rightarrow>
          ReaderAtSource \<lparr>ras_r = content, ras_limit = int (length content), ras_offset = 0,
                          ras_partSize = partSize\<rparr>
      | Sequential rd \<Rightarrow> TempfSource \<lparr>tfs_r = rd, tfs_partSize = partSize\<rparr>)"

definition MemorySource :: "Input \<Rightarrow> int \<Rightarrow> Source" where
  "MemorySource r partSize =
     (case r of
        RandomAccess content \<Rightarrow>
          ReaderAtSource \<lparr>ras_r = content, ras_limit = int (length content), ras_offset = 0,
                          ras_partSize = partSize\<rparr>
      | Sequential rd \<Rightarrow> MemSource \<lparr>ms_r = rd, ms_partSize = partSize\<rparr>)"

text \<open>
  Calling \<open>Next\<close> until it returns an error, as the callers of a source do: the slices in
  order if the error is \<open>io.EOF\<close>, and the error otherwise.
\<close>

partial_function (option) Source_drain ::
    "nat \<Rightarrow> Source \<Rightarrow> World \<Rightarrow> ((error + SourceReader list) \<times> Source \<times> World) option" where
  "Source_drain chunk src w =
     (case Source_Next chunk src w of
        None \<Rightarrow> None
      | Some (Inl err, src', w') \<Rightarrow>
          Some (if errors_Is err EOF then Inr [] else Inl err, src', w')
      | Some (Inr sr, src', w') \<Rightarrow>
          Option.bind (Source_drain chunk src' w')
            (\<lambda>(res, src'', w'').
               Some (case res of Inl err \<Rightarrow> Inl err | Inr srs \<Rightarrow> Inr (sr # srs), src'', w'')))"

text \<open>A world without files, without faults and with an empty pool.\<close>

definition world_empty :: World where
  "world_empty = \<lparr>w_files = [], w_faults = (\<lambda>_. None), w_pool_idle = 0,
                   w_pool_gets = 0, w_pool_puts = 0\<rparr>"

subsection \<open>What a reader still holds\<close>

text \<open>
  The bytes a reader's script will deliver, and the size of the script (bytes plus
  events), which every \<open>Read\<close> into a non-empty buffer makes smaller.
\<close>

fun ev_bytes :: "read_ev \<Rightarrow> byte list" where
  "ev_bytes (Ev bs e) = bs"

fun ev_err :: "read_ev \<Rightarrow> error option" where
  "ev_err (Ev bs e) = e"

definition Reader_bytes :: "Reader \<Rightarrow> byte list" where
  "Reader_bytes r = concat (map ev_bytes r)"

definition Reader_weight :: "Reader \<Rightarrow> nat" where
  "Reader_weight r = sum_list (map (\<lambda>ev. length (ev_bytes ev) + 1) r)"

subsection \<open>Well-behaved inputs\<close>

text \<open>
  A well-behaved reader delivers its bytes in reads of any sizes and then signals the end
  of the input: no event carries an error, except that the last one may carry \<open>io.EOF\<close>
  together with the last bytes.  A working file system has no faults.
\<close>

definition Reader_benign :: "Reader \<Rightarrow> bool" where
  "Reader_benign r \<longleftrightarrow>
     (\<forall>ev \<in> set (butlast r). ev_err ev = None) \<and>
     (r \<noteq> [] \<longrightarrow> (case ev_err (last r) of None \<Rightarrow> True | Some e \<Rightarrow> errors_Is e EOF))"

definition World_healthy :: "World \<Rightarrow> bool" where
  "World_healthy w \<longleftrightarrow> (\<forall>op. w_faults w op = None)"

text \<open>
  The bytes an input holds, and when an input suits a part size: a random-access input
  must leave room for one part below the \<open>int64\<close> maximum.
\<close>

fun Input_bytes :: "Input \<Rightarrow> byte list" where
  "Input_bytes (RandomAccess content) = content"
| "Input_bytes (Sequential r) = Reader_bytes r"

fun Input_ok :: "Input \<Rightarrow> int \<Rightarrow> bool" where
  "Input_ok (RandomAccess content) partSize = (int (length content) + partSize < 2 ^ 63)"
| "Input_ok (Sequential r) partSize = Reader_benign r"

text \<open>The bytes a source has not yet handed out, its part size, and its invariant.\<close>

fun Source_pending :: "Source \<Rightarrow> byte list" where
  "Source_pending (ReaderAtSource p) = drop (nat (ras_offset p)) (ras_r p)"
| "Source_pending (TempfSource p) = Reader_bytes (tfs_r p)"
| "Source_pending (MemSource p) = Reader_bytes (ms_r p)"

fun Source_partSize :: "Source \<Rightarrow> int" where
  "Source_partSize (ReaderAtSource p) = ras_partSize p"
| "Source_partSize (TempfSource p) = tfs_partSize p"
| "Source_partSize (MemSource p) = ms_partSize p"

fun Source_wf :: "Source \<Rightarrow> bool" where
  "Source_wf (ReaderAtSource p) =
     (ras_limit p = int (length (ras_r p)) \<and> 0 \<le> ras_offset p \<and> ras_offset p \<le> ras_limit p \<and>
      0 < ras_partSize p \<and> ras_limit p + ras_partSize p < 2 ^ 63)"
| "Source_wf (TempfSource p) = (Reader_benign (tfs_r p) \<and> 0 < tfs_partSize p)"
| "Source_wf (MemSource p) = (Reader_benign (ms_r p) \<and> 0 < ms_partSize p)"

text \<open>The bytes of a list of slices, read in a given world.\<close>

fun SourceReaders_bytes :: "World \<Rightarrow> SourceReader list \<Rightarrow> error + byte list" where
  "SourceReaders_bytes w [] = Inr []"
| "SourceReaders_bytes w (sr # srs) =
     (case SourceReader_bytes w sr of
        Inl e \<Rightarrow> Inl e
      | Inr bs \<Rightarrow>
          (case SourceReaders_bytes w srs of Inl e \<Rightarrow> Inl e | Inr rest \<Rightarrow> Inr (bs @ rest)))"

text \<open>
  A slice refers to a file of the world, and a later world keeps the files of an earlier
  one as they were.
\<close>

fun SourceReader_in :: "World \<Rightarrow> SourceReader \<Rightarrow> bool" where
  "SourceReader_in w (TempfSlice fh n) = (fh < length (w_files w))"
| "SourceReader_in w sr = True"

definition World_prefix :: "World \<Rightarrow> World \<Rightarrow> bool" where
  "World_prefix w w' \<longleftrightarrow>
     length (w_files w) \<le> length (w_files w') \<and>
     take (length (w_files w)) (w_files w') = w_files w"

text \<open>The world after \<open>bs\<close> has been appended to file \<open>fh\<close>.\<close>

definition file_append :: "World \<Rightarrow> nat \<Rightarrow> byte list \<Rightarrow> World" where
  "file_append w fh bs =
     w\<lparr>w_files := (w_files w)
         [fh := (w_files w ! fh)\<lparr>tf_content := tf_content (w_files w ! fh) @ bs\<rparr>]\<rparr>"

subsection \<open>S3UploadParts (s3_upload_parts.go)\<close>

text \<open>
  A session holds the state, the part counter, and the goroutines around the channel
  \<open>ch\<close>: \<open>sup_workers\<close> is the number of worker goroutines that \<open>NewS3UploadParts\<close>
  started (\<open>ConcurrentParts\<close> of them, none if that is not positive), \<open>sup_queued\<close> the
  parts handed to \<open>UploadPart\<close> whose goroutine still waits to send on \<open>ch\<close>, and
  \<open>sup_inflight\<close> the parts a worker has received and sent to the server without an
  answer yet.  The \<open>pending\<close> wait group counts the parts of both lists.  A queued part
  carries the slice that the caller's goroutine closes once the part's result channel
  has been written (none if the caller does not wait for it).  The session's own mutex
  \<open>S3UploadParts.mu\<close> is set by \<open>NewS3UploadParts\<close> and is left out; the mutex that is
  never set is the one of the state.
\<close>

record queuedPart =
  qp_part :: UploadPartInput
  qp_closer :: "SourceReader option"

record S3UploadParts =
  sup_st :: S3UploadState
  sup_counter :: PartCounter
  sup_workers :: nat
  sup_queued :: "queuedPart list"
  sup_inflight :: "queuedPart list"

text \<open>
  \<open>NewS3UploadParts\<close> sends \<open>CreateMultipartUpload\<close> and, if that succeeds, builds the
  session and starts the workers.  The state gets the hasher, the request, its output and
  two empty maps; its \<open>mu\<close> stays nil.
\<close>

definition NewS3UploadParts ::
    "S3Client \<Rightarrow> S3Hasher \<Rightarrow> CreateMultipartUploadInput \<Rightarrow> 32 word \<Rightarrow> int \<Rightarrow> wire_call list \<Rightarrow>
       (error + S3UploadParts) \<times> wire_call list" where
  "NewS3UploadParts s3 hr create maxPartID concurrentParts calls =
     (let (out, err) = s3_CreateMultipartUpload s3 create;
          calls1 = calls @ [CallCreateMultipartUpload create]
      in case err of
           Some e \<Rightarrow> (Inl e, calls1)
         | None \<Rightarrow>
             (Inr \<lparr>sup_st = (S3UploadState_empty hr)\<lparr>st_create := Some create,
                                                     st_createOutput := out\<rparr>,
                   sup_counter = NewPartCounter maxPartID,
                   sup_workers = nat concurrentParts,
                   sup_queued = [], sup_inflight = []\<rparr>,
              calls1))"

text \<open>
  \<open>UploadPart\<close> adds one to \<open>pending\<close> and starts a goroutine that offers the part on
  \<open>ch\<close>; it sends nothing itself.
\<close>

definition UploadPart :: "S3UploadParts \<Rightarrow> UploadPartInput \<Rightarrow> SourceReader option \<Rightarrow> S3UploadParts" where
  "UploadPart p part closer =
     p\<lparr>sup_queued := sup_queued p @ [\<lparr>qp_part = part, qp_closer = closer\<rparr>]\<rparr>"

text \<open>
  The worker's \<open>uploadPart\<close>: the \<open>UploadPart\<close> request, then \<open>setPartResults\<close> with its
  output and error, then the error as result.
\<close>

definition uploadPart ::
    "S3Client \<Rightarrow> S3UploadParts \<Rightarrow> UploadPartInput \<Rightarrow> wire_call list \<Rightarrow>
       error option \<times> S3UploadParts \<times> wire_call list" where
  "uploadPart s3 p part calls =
     (let (out, err) = s3_UploadPart s3 part;
          calls1 = calls @ [CallUploadPart part]
      in case setPartResults (sup_st p) (UploadPartInput_PartNumber part) out err of
           Inl e \<Rightarrow> (Some e, p, calls1)
         | Inr st \<Rightarrow> (err, p\<lparr>sup_st := st\<rparr>, calls1))"

text \<open>
  What the goroutines do is a sequence of events, in an order that the Go scheduler and
  the server decide.  \<open>Receive i\<close>: a free worker receives the \<open>i\<close>-th queued part and
  \<open>uploadPart\<close> sends its request.  \<open>Answer j\<close>: the request of the \<open>j\<close>-th part in
  flight returns and \<open>uploadPart\<close> goes on: \<open>setPartResults\<close>, the result written to the
  part's channel, the slice closed by the goroutine that reads the channel.  An event
  that cannot happen (no such part, no free worker) leaves everything as it is.  The
  result carries the panic of a goroutine, if there is one; later events do not happen
  then.
\<close>

datatype sched_event = Receive nat | Answer nat

definition remove_nth :: "nat \<Rightarrow> 'a list \<Rightarrow> 'a list" where
  "remove_nth i xs = take i xs @ drop (Suc i) xs"

fun worker_event ::
    "S3Client \<Rightarrow> sched_event \<Rightarrow> S3UploadParts \<Rightarrow> World \<Rightarrow> wire_call list \<Rightarrow>
       error option \<times> S3UploadParts \<times> World \<times> wire_call list" where
  "worker_event s3 (Receive i) p w calls =
     (if i < length (sup_queued p) \<and> length (sup_inflight p) < sup_workers p
      then (None,
            p\<lparr>sup_queued := remove_nth i (sup_queued p),
              sup_inflight := sup_inflight p @ [sup_queued p ! i]\<rparr>,
            w, calls @ [CallUploadPart (qp_part (sup_queued p ! i))])
      else (None, p, w, calls))"
| "worker_event s3 (Answer j) p w calls =
     (if j < length (sup_inflight p)
      then (let q = sup_inflight p ! j;
                (out, err) = s3_UploadPart s3 (qp_part q)
            in case setPartResults (sup_st p) (UploadPartInput_PartNumber (qp_part q)) out err of
                 Inl e \<Rightarrow> (Some e, p, w, calls)
               | Inr st \<Rightarrow>
                   (None,
                    p\<lparr>sup_st := st, sup_inflight := remove_nth j (sup_inflight p)\<rparr>,
                    (case qp_closer q of
                       None \<Rightarrow> w
                     | Some sr \<Rightarrow> snd (snd (SourceReader_Close w sr))),
                    calls))
      else (None, p, w, calls))"

fun worker_events ::
    "S3Client \<Rightarrow> sched_event list \<Rightarrow> S3UploadParts \<Rightarrow> World \<Rightarrow> wire_call list \<Rightarrow>
       error option \<times> S3UploadParts \<times> World \<times> wire_call list" where
  "worker_events s3 [] p w calls = (None, p, w, calls)"
| "worker_events s3 (ev # evs) p w calls =
     (case worker_event s3 ev p w calls of
        (Some e, p', w', calls') \<Rightarrow> (Some e, p', w', calls')
      | (None, p', w', calls') \<Rightarrow> worker_events s3 evs p' w' calls')"

text \<open>
  The events that empty both lists when at least one worker runs: the answers of the
  parts in flight, then each queued part received and answered.
\<close>

definition drain_events :: "S3UploadParts \<Rightarrow> sched_event list" where
  "drain_events p =
     replicate (length (sup_inflight p)) (Answer 0) @
     concat (replicate (length (sup_queued p)) [Receive 0, Answer 0])"

text \<open>
  \<open>CompleteUpload\<close> and \<open>AbortUpload\<close> return their error and leave the session and the
  list of requests sent so far updated.  A panic of \<open>completeParts\<close> unwinds through
  \<open>CompleteUpload\<close>: nothing is recorded.
\<close>

definition CompleteUpload ::
    "S3Client \<Rightarrow> S3UploadParts \<Rightarrow> wire_call list \<Rightarrow> error option \<times> S3UploadParts \<times> wire_call list" where
  "CompleteUpload s3 p calls =
     (case completeParts (sup_st p) of
        Inl err \<Rightarrow>
          if is_panic (Some err) then (Some err, p, calls)
          else (Some err, p\<lparr>sup_st := (sup_st p)\<lparr>st_completedError := Some err\<rparr>\<rparr>, calls)
      | Inr params \<Rightarrow>
          (let (out, err) = s3_CompleteMultipartUpload s3 params;
               calls1 = calls @ [CallCompleteMultipartUpload params];
               st1 = (sup_st p)\<lparr>st_completedOutput := out, st_completedError := err\<rparr>
           in if err = None
              then
                (let (attr, aerr) = s3_GetObjectAttributes s3 (CompleteInput_Bucket params)
                                      (CompleteInput_Key params)
                 in (None,
                     p\<lparr>sup_st := st1\<lparr>st_objectAttributesOutput := attr,
                                      st_objectAttributesError := aerr\<rparr>\<rparr>,
                     calls1 @ [CallGetObjectAttributes (CompleteInput_Bucket params)
                                 (CompleteInput_Key params)]))
              else (err, p\<lparr>sup_st := st1\<rparr>, calls1)))"

definition AbortUpload ::
    "S3Client \<Rightarrow> S3UploadParts \<Rightarrow> wire_call list \<Rightarrow> error option \<times> S3UploadParts \<times> wire_call list" where
  "AbortUpload s3 p calls =
     (case (st_create (sup_st p), st_createOutput (sup_st p)) of
        (Some create, Some createOutput) \<Rightarrow>
          (let params = \<lparr>AbortInput_Bucket = CreateInput_Bucket create,
                         AbortInput_Key = CreateInput_Key create,
                         AbortInput_UploadId = createOutput\<rparr>;
               (out, err) = s3_AbortMultipartUpload s3 params
           in (err, p\<lparr>sup_st := (sup_st p)\<lparr>st_abortedOutput := out, st_abortedError := err\<rparr>\<rparr>,
               calls @ [CallAbortMultipartUpload params]))
      | _ \<Rightarrow> (Some (Panic ''nil pointer dereference''), p, calls))"

subsection \<open>Four sessions\<close>

text \<open>
  A hasher with part size 2 that has hashed three bytes, hence two parts, under the
  identity as digest function, and a server that accepts every request.  The session
  \<open>session_created\<close> is the one \<open>NewS3UploadParts\<close> returns for this hasher and server
  with one worker; \<open>session_parts_1_2\<close> is that session with results for the parts 1 and
  2 in its two maps; \<open>session_locked_parts_1_2\<close> is the same with a mutex stored in the
  state, and \<open>session_locked_part_2\<close> has a mutex and a result for part 2 only.
\<close>

definition hasher_two_parts :: S3Hasher where
  "hasher_two_parts =
     \<lparr>S3Hasher_algo = ChecksumAlgorithmSHA256, S3Hasher_size = 2,
      S3Hasher_full_algo = \<lparr>Hash_digest = (\<lambda>bs. bs), Hash_written = [1, 2, 3]\<rparr>,
      S3Hasher_algo_parts =
        \<lparr>HashParts_partSize = 2, HashParts_checksumAlgorithm = ChecksumAlgorithmSHA256,
         HashParts_hasher = (\<lambda>bs. bs), HashParts_p = True,
         HashParts_h =
           [\<lparr>HashPart_n = 2, HashPart_h = \<lparr>Hash_digest = (\<lambda>bs. bs), Hash_written = [1, 2]\<rparr>\<rparr>,
            \<lparr>HashPart_n = 1, HashPart_h = \<lparr>Hash_digest = (\<lambda>bs. bs), Hash_written = [3]\<rparr>\<rparr>]\<rparr>,
      S3Hasher_full_md5 = \<lparr>Hash_digest = (\<lambda>bs. bs), Hash_written = [1, 2, 3]\<rparr>,
      S3Hasher_md5_parts =
        \<lparr>HashParts_partSize = 2, HashParts_checksumAlgorithm = ChecksumAlgorithmMD5,
         HashParts_hasher = (\<lambda>bs. bs), HashParts_p = True,
         HashParts_h =
           [\<lparr>HashPart_n = 2, HashPart_h = \<lparr>Hash_digest = (\<lambda>bs. bs), Hash_written = [1, 2]\<rparr>\<rparr>,
            \<lparr>HashPart_n = 1, HashPart_h = \<lparr>Hash_digest = (\<lambda>bs. bs), Hash_written = [3]\<rparr>\<rparr>]\<rparr>\<rparr>"

definition s3_accepting :: S3Client where
  "s3_accepting =
     \<lparr>s3_PutObject = (\<lambda>_. (Some (Some ''etag''), None)),
      s3_CreateMultipartUpload = (\<lambda>_. (Some (Some ''upload-1''), None)),
      s3_UploadPart = (\<lambda>_. (Some (Some ''etag''), None)),
      s3_CompleteMultipartUpload = (\<lambda>_. (Some (Some ''etag''), None)),
      s3_AbortMultipartUpload = (\<lambda>_. (Some (), None)),
      s3_GetObjectAttributes = (\<lambda>_ _. (Some (Some ''etag''), None))\<rparr>"

definition create_b_k :: CreateMultipartUploadInput where
  "create_b_k = \<lparr>CreateInput_Bucket = ''b'', CreateInput_Key = ''k'',
                  CreateInput_ChecksumAlgorithm = ChecksumAlgorithmSHA256\<rparr>"

definition session_created :: S3UploadParts where
  "session_created =
     \<lparr>sup_st = (S3UploadState_empty hasher_two_parts)
                 \<lparr>st_create := Some create_b_k, st_createOutput := Some (Some ''upload-1'')\<rparr>,
      sup_counter = NewPartCounter 10000,
      sup_workers = 1, sup_queued = [], sup_inflight = []\<rparr>"

definition session_parts_1_2 :: S3UploadParts where
  "session_parts_1_2 =
     session_created
       \<lparr>sup_st := (sup_st session_created)
          \<lparr>st_uploadPartOutputs := [(1, Some (Some ''etag'')), (2, Some (Some ''etag''))],
           st_uploadPartErrors := [(1, None), (2, None)]\<rparr>,
        sup_counter := \<lparr>lastPartID = 2, MaxPartID = 10000\<rparr>\<rparr>"

definition session_locked_parts_1_2 :: S3UploadParts where
  "session_locked_parts_1_2 =
     session_parts_1_2\<lparr>sup_st := (sup_st session_parts_1_2)\<lparr>st_mu := Some Mutex\<rparr>\<rparr>"

definition session_locked_part_2 :: S3UploadParts where
  "session_locked_part_2 =
     session_parts_1_2
       \<lparr>sup_st := (sup_st session_parts_1_2)
          \<lparr>st_uploadPartOutputs := [(2, Some (Some ''etag''))],
           st_uploadPartErrors := [(2, None)],
           st_mu := Some Mutex\<rparr>\<rparr>"

subsection \<open>Uploader.upload (s3_uploader.go)\<close>

text \<open>
  The options \<open>upload\<close> reads, with the package variable \<open>copyBufSize\<close> among them.
  The environment of one call: the digest functions behind \<open>NewHasher\<close>, the S3 client,
  the schedule of the goroutines and the timer of \<open>Wait\<close>.

  \<open>env_sched n\<close> lists the events of the workers that happen while \<open>upload\<close> runs the
  \<open>n\<close>-th iteration of its loop (counted from 0), and \<open>env_sched\<close> at the number of
  iterations run those that happen while \<open>Wait\<close> blocks, before it gives up or goes on
  waiting.  \<open>env_timer\<close> says whether the timer of \<open>Wait\<close> (present for a positive
  \<open>UploadPartTimeout\<close>) fires then.  The context is not canceled, and the registry of
  pending sessions is left out.
\<close>

record Options =
  opt_PartSize :: int
  opt_MaxPartID :: "32 word"
  opt_UseMemoryBuffers :: bool
  opt_ChecksumAlgorithm :: ChecksumAlgorithm
  opt_copyBufSize :: nat
  opt_ConcurrentParts :: int
  opt_UploadPartTimeout :: int

record Env =
  env_hasher :: Hasher
  env_s3 :: S3Client
  env_sched :: "nat \<Rightarrow> sched_event list"
  env_timer :: bool

type_synonym upload_result = "(S3UploadState option \<times> error option) \<times> World \<times> wire_call list"

text \<open>
  The writes of \<open>io.CopyBuffer\<close> with a buffer of \<open>k\<close> bytes: the bytes of the slice in
  pieces of \<open>k\<close>, the last one shorter.
\<close>

function chunks_of :: "nat \<Rightarrow> 'a list \<Rightarrow> 'a list list" where
  "chunks_of k xs = (if k = 0 \<or> xs = [] then [] else take k xs # chunks_of k (drop k xs))"
  by pat_completeness auto
termination
  by (relation "measure (\<lambda>(k, xs). length xs)") auto

declare chunks_of.simps [simp del]

text \<open>
  \<open>putObject\<close>, with the body of the request and the slice to close on return (none for
  the zero-length reader).  The state it builds has no mutex either.
\<close>

definition putObject ::
    "Env \<Rightarrow> byte list \<Rightarrow> SourceReader option \<Rightarrow> string \<Rightarrow> string \<Rightarrow> S3Hasher \<Rightarrow>
       World \<Rightarrow> wire_call list \<Rightarrow> upload_result" where
  "putObject env body rc Bucket Key hr w calls =
     (let obj = \<lparr>PutObjectInput_Bucket = Bucket, PutObjectInput_Key = Key,
                  PutObjectInput_Body = body,
                  PutObjectInput_ContentMD5 = S3Hasher_MD5Sum hr,
                  PutObjectInput_Checksum =
                    checksum_field (S3Hasher_ChecksumAlgorithm hr) (S3Hasher_Sum hr)\<rparr>;
          (out, err) = s3_PutObject (env_s3 env) obj;
          calls1 = calls @ [CallPutObject obj];
          p = (S3UploadState_empty hr)\<lparr>st_obj := Some obj, st_objOutput := out,
                                         st_objError := err\<rparr>;
          (p', calls2) =
            (if err = None
             then (let (attr, aerr) = s3_GetObjectAttributes (env_s3 env) Bucket Key
                   in (p\<lparr>st_objectAttributesOutput := attr, st_objectAttributesError := aerr\<rparr>,
                       calls1 @ [CallGetObjectAttributes Bucket Key]))
             else (p, calls1));
          w' = (case rc of None \<Rightarrow> w | Some sr \<Rightarrow> snd (snd (SourceReader_Close w sr)))
      in ((Some p', err), w', calls2))"

text \<open>
  The end of the loop body: \<open>NextPartID\<close>, the request with its checksums
  (\<open>SetUploadPartChecksums\<close> panics on a part the hasher does not have), and
  \<open>UploadPart\<close>, which queues the part; the goroutine started next waits for the part's
  result and then closes the slice.
\<close>

definition upload_submit ::
    "string \<Rightarrow> string \<Rightarrow> S3UploadParts \<Rightarrow> S3Hasher \<Rightarrow> SourceReader \<Rightarrow> byte list \<Rightarrow>
       error + S3UploadParts" where
  "upload_submit Bucket Key s3multi hr sr body =
     (let ((partID, err), counter) = NextPartID (sup_counter s3multi)
      in case err of
           Some e \<Rightarrow> Inl e
         | None \<Rightarrow>
             (case (S3Hasher_MD5SumPart hr (sint partID), S3Hasher_SumPart hr (sint partID)) of
                (Some md5Sum, Some algoSum) \<Rightarrow>
                  (let part = \<lparr>UploadPartInput_Bucket = Bucket, UploadPartInput_Key = Key,
                               UploadPartInput_UploadId =
                                 (case st_createOutput (sup_st s3multi) of
                                    None \<Rightarrow> None | Some uploadId \<Rightarrow> uploadId),
                               UploadPartInput_PartNumber = sint partID,
                               UploadPartInput_Body = body,
                               UploadPartInput_ContentMD5 = Some md5Sum,
                               UploadPartInput_Checksum =
                                 checksum_field (S3Hasher_ChecksumAlgorithm hr) algoSum\<rparr>
                   in Inr (UploadPart (s3multi\<lparr>sup_counter := counter\<rparr>) part (Some sr)))
              | _ \<Rightarrow> Inl (Panic ''index out of range'')))"

text \<open>
  \<open>Wait\<close> at step \<open>n\<close>.  It returns nil once \<open>pending\<close> is zero.  While parts are
  pending it returns the timeout error if its timer fires; otherwise it keeps waiting
  until the workers have dealt with every part, which never happens when there is no
  worker: the call does not return then.  The timeout error is
  \<open>fmt.Errorf("%w: %s (%s)", ErrTimeout, t, timeout)\<close>.
\<close>

definition Wait ::
    "Env \<Rightarrow> Options \<Rightarrow> nat \<Rightarrow> S3UploadParts \<Rightarrow> World \<Rightarrow> wire_call list \<Rightarrow>
       (error option \<times> S3UploadParts \<times> World \<times> wire_call list) option" where
  "Wait env opts n p w calls =
     (case worker_events (env_s3 env) (env_sched env n) p w calls of
        (Some e, p1, w1, calls1) \<Rightarrow> Some (Some e, p1, w1, calls1)
      | (None, p1, w1, calls1) \<Rightarrow>
          if sup_queued p1 = [] \<and> sup_inflight p1 = [] then Some (None, p1, w1, calls1)
          else if 0 < opt_UploadPartTimeout opts \<and> env_timer env
          then Some (Some (Wrapped ''timeout'' ErrTimeout), p1, w1, calls1)
          else if sup_workers p1 = 0 then None
          else Some (worker_events (env_s3 env) (drain_events p1) p1 w1 calls1))"

text \<open>
  After the loop: \<open>Wait\<close>, then \<open>CompleteUpload\<close> if no error is recorded, and the joined
  \<open>Errors()\<close> as result.  The state reads the hasher through its pointer \<open>hr\<close>.
\<close>

definition upload_finish ::
    "Env \<Rightarrow> Options \<Rightarrow> S3UploadParts \<Rightarrow> S3Hasher \<Rightarrow> nat \<Rightarrow> World \<Rightarrow> wire_call list \<Rightarrow>
       upload_result option" where
  "upload_finish env opts s3multi hr n w calls =
     (case Wait env opts n s3multi w calls of
        None \<Rightarrow> None
      | Some (err, m1, w1, calls1) \<Rightarrow>
          (let m = m1\<lparr>sup_st := (sup_st m1)\<lparr>st_hr := hr\<rparr>\<rparr>
           in if is_panic err then Some ((None, err), w1, calls1)
              else case err of
                Some e \<Rightarrow> Some ((Some (sup_st m), Some e), w1, calls1)
              | None \<Rightarrow>
                  if length (Errors (sup_st m)) = 0
                  then (let (cerr, m', calls') = CompleteUpload (env_s3 env) m calls1
                        in if is_panic cerr then Some ((None, cerr), w1, calls')
                           else Some ((Some (sup_st m'), errors_Join (Errors (sup_st m'))),
                                      w1, calls'))
                  else Some ((Some (sup_st m), errors_Join (Errors (sup_st m))), w1, calls1)))"

text \<open>
  The \<open>for\<close> loop of \<open>upload\<close>.  Its variables are the source, the hash writer, the
  session \<open>s3multi\<close> (nil at first) and the read-ahead \<open>peeked\<close>; the number \<open>n\<close> of the
  iteration, the world and the requests sent so far are threaded along.  Each iteration
  begins with the events of the workers that the schedule places in it; a panic among
  them ends the run.  \<open>io.CopyBuffer\<close> panics on an empty buffer.
\<close>

partial_function (option) upload_loop ::
    "Env \<Rightarrow> Options \<Rightarrow> string \<Rightarrow> string \<Rightarrow> Source \<Rightarrow> S3Hasher \<Rightarrow> S3UploadParts option \<Rightarrow>
       (error + SourceReader) option \<Rightarrow> nat \<Rightarrow> World \<Rightarrow> wire_call list \<Rightarrow>
       upload_result option" where
  "upload_loop env opts Bucket Key src s3hw s3multi0 peeked n w0 calls0 =
     (case (case s3multi0 of
              None \<Rightarrow> (None, None, w0, calls0)
            | Some m0 \<Rightarrow>
                (case worker_events (env_s3 env) (env_sched env n) m0 w0 calls0 of
                   (perr, m, w, calls) \<Rightarrow> (perr, Some m, w, calls))) of
        (Some perr, s3multi, w, calls) \<Rightarrow> Some ((None, Some perr), w, calls)
      | (None, s3multi, w, calls) \<Rightarrow>
     (case (case peeked of
              Some r \<Rightarrow> Some (r, src, w)
            | None \<Rightarrow> Source_Next (opt_copyBufSize opts) src w) of
        None \<Rightarrow> None
      | Some (Inl err, src1, w1) \<Rightarrow>
          if \<not> errors_Is err EOF then Some ((None, Some err), w1, calls)
          else
            (case s3multi of
               None \<Rightarrow>
                 (case S3Hasher_write s3hw [] of
                    None \<Rightarrow> None
                  | Some hw \<Rightarrow> Some (putObject env [] None Bucket Key hw w1 calls))
             | Some m \<Rightarrow> upload_finish env opts m s3hw (n + 1) w1 calls)
      | Some (Inr sr, src1, w1) \<Rightarrow>
          if opt_copyBufSize opts = 0
          then Some ((None, Some (Panic ''empty buffer in CopyBuffer'')), w1, calls)
          else
            (case SourceReader_bytes w1 sr of
               Inl err \<Rightarrow> Some ((None, Some err), w1, calls)
             | Inr body \<Rightarrow>
                 (case S3Hasher_writes s3hw (chunks_of (opt_copyBufSize opts) body) of
                    None \<Rightarrow> None
                  | Some hw \<Rightarrow>
                      (case s3multi of
                         Some m \<Rightarrow>
                           (case upload_submit Bucket Key m hw sr body of
                              Inl err \<Rightarrow> Some ((None, Some err), w1, calls)
                            | Inr m' \<Rightarrow>
                                upload_loop env opts Bucket Key src1 hw (Some m') None
                                  (n + 1) w1 calls)
                       | None \<Rightarrow>
                           (case S3Hasher_PartSize hw 1 of
                              None \<Rightarrow> Some ((None, Some (Panic ''index out of range'')), w1, calls)
                            | Some sz \<Rightarrow>
                                if sz < opt_PartSize opts
                                then Some (putObject env body (Some sr) Bucket Key hw w1 calls)
                                else
                                  (case Source_Next (opt_copyBufSize opts) src1 w1 of
                                     None \<Rightarrow> None
                                   | Some (next, src2, w2) \<Rightarrow>
                                       if (case next of Inl next_err \<Rightarrow> errors_Is next_err EOF
                                           | Inr next_sr \<Rightarrow> False)
                                       then Some (putObject env body (Some sr) Bucket Key hw w2 calls)
                                       else
                                         (case NewS3UploadParts (env_s3 env) hw
                                                 \<lparr>CreateInput_Bucket = Bucket,
                                                  CreateInput_Key = Key,
                                                  CreateInput_ChecksumAlgorithm =
                                                    S3Hasher_ChecksumAlgorithm hw\<rparr>
                                                 (opt_MaxPartID opts) (opt_ConcurrentParts opts)
                                                 calls of
                                            (Inl e, calls1) \<Rightarrow> Some ((None, Some e), w2, calls1)
                                          | (Inr m, calls1) \<Rightarrow>
                                              (case upload_submit Bucket Key m hw sr body of
                                                 Inl err \<Rightarrow> Some ((None, Some err), w2, calls1)
                                               | Inr m' \<Rightarrow>
                                                   upload_loop env opts Bucket Key src2 hw
                                                     (Some m') (Some next) (n + 1) w2
                                                     calls1)))))))))"

declare upload_loop.simps [code] HashParts_Write_loop.simps [code] tempf_spool.simps [code]
  mem_spool.simps [code] Source_drain.simps [code]

definition upload ::
    "Env \<Rightarrow> Options \<Rightarrow> Input \<Rightarrow> string \<Rightarrow> string \<Rightarrow> World \<Rightarrow> upload_result option" where
  "upload env opts r Bucket Key w =
     upload_loop env opts Bucket Key
       (if opt_UseMemoryBuffers opts then MemorySource r (opt_PartSize opts)
        else TempfileSource r (opt_PartSize opts))
       (NewS3Hasher (env_hasher env) (opt_ChecksumAlgorithm opts) (opt_PartSize opts))
       None None 0 w []"

subsection \<open>The hasher as a function of the bytes hashed\<close>

text \<open>
  The state of a \<open>HashParts\<close> and of an \<open>S3Hasher\<close> that have hashed the bytes \<open>B\<close> in
  non-empty writes: one part per piece of \<open>partSize\<close> bytes, the last part open if it is
  not full.
\<close>

definition HashParts_of :: "(byte list \<Rightarrow> HashSum) \<Rightarrow> ChecksumAlgorithm \<Rightarrow> int \<Rightarrow> byte list \<Rightarrow> HashParts" where
  "HashParts_of f algo partSize B =
     \<lparr>HashParts_partSize = partSize, HashParts_checksumAlgorithm = algo,
      HashParts_hasher = f,
      HashParts_p = (chunks_of (nat partSize) B \<noteq> [] \<and>
                     int (length (last (chunks_of (nat partSize) B))) < partSize),
      HashParts_h = map (\<lambda>c. \<lparr>HashPart_n = int (length c),
                                 HashPart_h = \<lparr>Hash_digest = f, Hash_written = c\<rparr>\<rparr>)
                      (chunks_of (nat partSize) B)\<rparr>"

definition S3Hasher_of :: "Hasher \<Rightarrow> ChecksumAlgorithm \<Rightarrow> int \<Rightarrow> byte list \<Rightarrow> S3Hasher" where
  "S3Hasher_of H algo partSize B =
     \<lparr>S3Hasher_algo = algo, S3Hasher_size = partSize,
      S3Hasher_full_algo = \<lparr>Hash_digest = H algo, Hash_written = B\<rparr>,
      S3Hasher_algo_parts = HashParts_of (H algo) algo partSize B,
      S3Hasher_full_md5 = \<lparr>Hash_digest = H ChecksumAlgorithmMD5, Hash_written = B\<rparr>,
      S3Hasher_md5_parts = HashParts_of (H ChecksumAlgorithmMD5) ChecksumAlgorithmMD5 partSize B\<rparr>"

subsection \<open>What an upload sent\<close>

text \<open>
  The part uploads among the requests of a run, as pairs of part number and body, and a
  list numbered from \<open>i\<close> on.  A slice is fresh for a world when it does not refer to one
  of the world's files.
\<close>

fun uploaded_parts :: "wire_call list \<Rightarrow> (int \<times> byte list) list" where
  "uploaded_parts [] = []"
| "uploaded_parts (CallUploadPart part # calls) =
     (UploadPartInput_PartNumber part, UploadPartInput_Body part) # uploaded_parts calls"
| "uploaded_parts (call # calls) = uploaded_parts calls"

fun number_from :: "int \<Rightarrow> 'a list \<Rightarrow> (int \<times> 'a) list" where
  "number_from i [] = []"
| "number_from i (x # xs) = (i, x) # number_from (i + 1) xs"

fun SourceReader_fresh :: "World \<Rightarrow> SourceReader \<Rightarrow> bool" where
  "SourceReader_fresh w (TempfSlice fh n) = (length (w_files w) \<le> fh)"
| "SourceReader_fresh w sr = True"

subsection \<open>A small upload configuration\<close>

text \<open>
  A run environment whose digest function is the identity, whose server accepts every
  request, whose schedule has no event before \<open>Wait\<close> has to wait for them and whose
  timer does not fire; options with a part size of two bytes, a copy buffer of one byte,
  temp-file buffering, the S3 limit of 10000 parts, one worker and no timeout.
\<close>

definition env_accepting :: Env where
  "env_accepting = \<lparr>env_hasher = (\<lambda>_ bs. bs), env_s3 = s3_accepting,
                     env_sched = (\<lambda>_. []), env_timer = False\<rparr>"

definition opts_small :: Options where
  "opts_small = \<lparr>opt_PartSize = 2, opt_MaxPartID = 10000, opt_UseMemoryBuffers = False,
     opt_ChecksumAlgorithm = ChecksumAlgorithmSHA256, opt_copyBufSize = 1,
     opt_ConcurrentParts = 1, opt_UploadPartTimeout = 0\<rparr>"

text \<open>The requests that are part uploads.\<close>

fun is_part_call :: "wire_call \<Rightarrow> bool" where
  "is_part_call (CallUploadPart part) = True"
| "is_part_call call = False"

subsection \<open>Two servers that refuse one request\<close>




section \<open>Verified properties\<close>

subsection \<open>The part counter\<close>

lemma NextPartID_calls_gen:
  "NextPartID_calls n p =
     (map (\<lambda>k. if k < unat (MaxPartID p - lastPartID p)
                then (lastPartID p + word_of_nat (Suc k), None)
                else (0, Some ErrMaxPartID)) [0..<n],
      p\<lparr>lastPartID := lastPartID p + word_of_nat (min n (unat (MaxPartID p - lastPartID p)))\<rparr>)"
proof (induction n arbitrary: p)
  case 0
  show ?case by simp
next
  case (Suc n)
  show ?case
  proof (cases "lastPartID p = MaxPartID p")
    case True
    have step: "NextPartID p = ((0, Some ErrMaxPartID), p)"
      using True by (simp add: NextPartID_def)
    show ?thesis
      using True by (simp add: step Suc.IH map_upt_Suc del: upt_Suc)
  next
    case False
    define p' where "p' = p\<lparr>lastPartID := lastPartID p + 1\<rparr>"
    have step: "NextPartID p = ((lastPartID p + 1, None), p')"
      using False by (simp add: NextPartID_def p'_def Let_def)
    have dpos: "unat (MaxPartID p - lastPartID p) \<noteq> 0"
      using False by (simp add: unat_eq_0)
    have d': "unat (MaxPartID p' - lastPartID p') = unat (MaxPartID p - lastPartID p) - 1"
    proof -
      have "MaxPartID p' - lastPartID p' = (MaxPartID p - lastPartID p) - 1"
        by (simp add: p'_def)
      then show ?thesis using dpos
        by (simp add: unat_minus_one unat_eq_0)
    qed
    show ?thesis
      using dpos
      apply (simp add: step Suc.IH d' map_upt_Suc del: upt_Suc)
      apply (auto simp: p'_def min_def)
      done
  qed
qed

text \<open>
  Claim C8.  For a session whose cap \<open>MaxPartID\<close> is \<open>m \<ge> 0\<close>, the first \<open>m\<close> calls of
  \<open>NextPartID\<close> return the indices \<open>1, 2, \<dots>, m\<close> with a nil error; every later call
  returns \<open>(0, ErrMaxPartID)\<close>, and the counter stays at \<open>m\<close>: after \<open>n\<close> calls it holds
  \<open>min n m\<close>.
\<close>

theorem NextPartID_cap:
  assumes "0 \<le> sint m" and "NextPartID_calls n (NewPartCounter m) = (rs, p')"
  shows "length rs = n \<and>
    (\<forall>k<n. rs ! k = (if int k < sint m then (word_of_int (int k + 1), None)
                      else (0, Some ErrMaxPartID))) \<and>
    (\<forall>k<n. int k < sint m \<longrightarrow> sint (fst (rs ! k)) = int k + 1) \<and>
    sint (lastPartID p') = min (int n) (sint m) \<and> MaxPartID p' = m"
proof -
  have um: "int (unat m) = sint m"
  proof -
    have "sint m < 2 ^ 31" using sint_lt [of m] by simp
    then have "take_bit 32 (sint m) = sint m"
      using assms(1) by (simp add: take_bit_int_eq_self)
    then have "uint m = sint m" using uint_sint [of m] by simp
    then show ?thesis by simp
  qed
  have m_lt: "sint m < 2 ^ 31"
    using sint_lt [of m] by simp
  have small: "sint (word_of_nat j :: 32 word) = int j" if "int j \<le> sint m" for j
  proof -
    have "int j < 2 ^ 31" using that m_lt by linarith
    then show ?thesis
      by (simp add: signed_of_nat signed_take_bit_int_eq_self)
  qed
  have rs: "rs = map (\<lambda>k. if k < unat m then (word_of_nat (Suc k), None)
                else (0, Some ErrMaxPartID)) [0..<n]"
    and p': "p' = \<lparr>lastPartID = word_of_nat (min n (unat m)), MaxPartID = m\<rparr>"
    using assms(2) unfolding NextPartID_calls_gen NewPartCounter_def by auto
  have lt_iff: "k < unat m \<longleftrightarrow> int k < sint m" for k
    using um by linarith
  have a: "length rs = n" by (simp add: rs)
  have b: "\<forall>k<n. rs ! k = (if int k < sint m then (word_of_int (int k + 1), None)
                      else (0, Some ErrMaxPartID))"
    by (simp add: rs lt_iff add.commute)
  have c: "\<forall>k<n. int k < sint m \<longrightarrow> sint (fst (rs ! k)) = int k + 1"
  proof (intro allI impI)
    fix k assume "k < n" "int k < sint m"
    then have "fst (rs ! k) = word_of_nat (Suc k)" by (simp add: rs lt_iff)
    moreover have "sint (word_of_nat (Suc k) :: 32 word) = int (Suc k)"
      using \<open>int k < sint m\<close> by (intro small) simp
    ultimately show "sint (fst (rs ! k)) = int k + 1" by simp
  qed
  have d: "sint (lastPartID p') = min (int n) (sint m)"
  proof -
    have "int (min n (unat m)) \<le> sint m" using um by linarith
    then have "sint (word_of_nat (min n (unat m)) :: 32 word) = int (min n (unat m))"
      by (rule small)
    moreover have "int (min n (unat m)) = min (int n) (sint m)"
      using um by linarith
    ultimately show ?thesis by (simp add: p')
  qed
  show ?thesis using a b c d by (simp add: p')
qed

theorem NextPartID_cap_witness:
  "fst (NextPartID_calls 5 (NewPartCounter 3)) =
     [(1, None), (2, None), (3, None), (0, Some ErrMaxPartID), (0, Some ErrMaxPartID)] \<and>
   sint (lastPartID (snd (NextPartID_calls 5 (NewPartCounter 3)))) = 3"
proof -
  have h1: "0 \<le> sint (3 :: 32 word)" by simp
  have h2: "NextPartID_calls 5 (NewPartCounter 3) =
     ([(1, None), (2, None), (3, None), (0, Some ErrMaxPartID), (0, Some ErrMaxPartID)],
      \<lparr>lastPartID = 3, MaxPartID = 3\<rparr>)"
    by code_simp
  from NextPartID_cap [OF h1 h2] show ?thesis by (simp add: h2)
qed

subsection \<open>The multi-part hasher\<close>

lemma HashParts_inv_New: "0 < partSize \<Longrightarrow> HashParts_inv (NewHashParts H algo partSize)"
  by (simp add: HashParts_inv_def NewHashParts_def HashParts_contents_def)

lemma HashParts_alloc_inv:
  assumes "HashParts_inv hp" and "\<not> HashParts_p hp"
  shows "HashParts_inv (HashParts_alloc hp)"
    and "HashParts_p (HashParts_alloc hp)"
    and "HashParts_contents (HashParts_alloc hp) = HashParts_contents hp @ [[]]"
    and "HashParts_partSize (HashParts_alloc hp) = HashParts_partSize hp"
    and "HashParts_hasher (HashParts_alloc hp) = HashParts_hasher hp"
    and "HashParts_checksumAlgorithm (HashParts_alloc hp) = HashParts_checksumAlgorithm hp"
proof -
  show c: "HashParts_contents (HashParts_alloc hp) = HashParts_contents hp @ [[]]"
    by (simp add: HashParts_contents_def HashParts_alloc_def Hash_New_def)
  show "HashParts_p (HashParts_alloc hp)" by (simp add: HashParts_alloc_def)
  show "HashParts_partSize (HashParts_alloc hp) = HashParts_partSize hp"
    by (simp add: HashParts_alloc_def)
  show "HashParts_hasher (HashParts_alloc hp) = HashParts_hasher hp"
    by (simp add: HashParts_alloc_def)
  show "HashParts_checksumAlgorithm (HashParts_alloc hp) = HashParts_checksumAlgorithm hp"
    by (simp add: HashParts_alloc_def)
  have full: "\<forall>c \<in> set (HashParts_contents hp). int (length c) = HashParts_partSize hp"
  proof (cases "HashParts_contents hp = []")
    case True then show ?thesis by simp
  next
    case False
    then have "int (length (last (HashParts_contents hp))) = HashParts_partSize hp"
      using assms by (auto simp: HashParts_inv_def)
    moreover have "\<forall>c \<in> set (butlast (HashParts_contents hp)). int (length c) = HashParts_partSize hp"
      using assms by (simp add: HashParts_inv_def)
    moreover have "HashParts_contents hp = butlast (HashParts_contents hp) @ [last (HashParts_contents hp)]"
      using False by simp
    ultimately show ?thesis
      by (metis Un_iff empty_iff insert_iff list.set(1) list.set(2) set_append)
  qed
  show "HashParts_inv (HashParts_alloc hp)"
    unfolding HashParts_inv_def c
    using assms(1) full
    by (auto simp: HashParts_inv_def HashParts_alloc_def Hash_New_def)
qed

lemma HashParts_fill:
  fixes hp1 :: HashParts and bs :: "byte list"
  assumes inv: "HashParts_inv hp1" and p: "HashParts_p hp1"
    and bs: "bs \<noteq> []"
      "int (length bs) \<le> HashParts_partSize hp1 - HashPart_n (last (HashParts_h hp1))"
  defines "cur' \<equiv> \<lparr>HashPart_n = HashPart_n (last (HashParts_h hp1)) + int (length bs),
                    HashPart_h = Hash_Write (HashPart_h (last (HashParts_h hp1))) bs\<rparr>"
  defines "hp2 \<equiv> hp1\<lparr>HashParts_h := butlast (HashParts_h hp1) @ [cur']\<rparr>"
  defines "hp3 \<equiv> (if HashPart_n cur' = HashParts_partSize hp2
                   then hp2\<lparr>HashParts_p := False\<rparr> else hp2)"
  shows "HashParts_inv hp3"
    and "HashParts_contents hp3 =
           butlast (HashParts_contents hp1) @ [last (HashParts_contents hp1) @ bs]"
    and "HashParts_partSize hp3 = HashParts_partSize hp1"
    and "HashParts_hasher hp3 = HashParts_hasher hp1"
    and "HashParts_checksumAlgorithm hp3 = HashParts_checksumAlgorithm hp1"
proof -
  have ne: "HashParts_h hp1 \<noteq> []"
    using inv p by (auto simp: HashParts_inv_def HashParts_contents_def)
  have lastc: "last (HashParts_contents hp1) = Hash_written (HashPart_h (last (HashParts_h hp1)))"
    using ne by (simp add: HashParts_contents_def last_map)
  have butc: "butlast (HashParts_contents hp1) =
      map (\<lambda>part. Hash_written (HashPart_h part)) (butlast (HashParts_h hp1))"
    by (simp add: HashParts_contents_def map_butlast)
  have cur_in: "last (HashParts_h hp1) \<in> set (HashParts_h hp1)"
    using ne by simp
  have ncur: "HashPart_n (last (HashParts_h hp1)) = int (length (last (HashParts_contents hp1)))"
    and dcur: "Hash_digest (HashPart_h (last (HashParts_h hp1))) = HashParts_hasher hp1"
    using inv cur_in by (auto simp: HashParts_inv_def lastc)
  show c3: "HashParts_contents hp3 =
           butlast (HashParts_contents hp1) @ [last (HashParts_contents hp1) @ bs]"
    by (simp add: hp3_def hp2_def cur'_def HashParts_contents_def Hash_Write_def last_map ne
        map_butlast)
  show ps: "HashParts_partSize hp3 = HashParts_partSize hp1"
    by (simp add: hp3_def hp2_def)
  show hs: "HashParts_hasher hp3 = HashParts_hasher hp1"
    by (simp add: hp3_def hp2_def)
  show "HashParts_checksumAlgorithm hp3 = HashParts_checksumAlgorithm hp1"
    by (simp add: hp3_def hp2_def)
  have h3: "HashParts_h hp3 = butlast (HashParts_h hp1) @ [cur']"
    by (simp add: hp3_def hp2_def)
  have p3: "HashParts_p hp3 \<longleftrightarrow> HashPart_n cur' \<noteq> HashParts_partSize hp1"
    using p by (simp add: hp3_def hp2_def)
  have n': "HashPart_n cur' = int (length (last (HashParts_contents hp1) @ bs))"
    by (simp add: cur'_def ncur)
  have le: "HashPart_n cur' \<le> HashParts_partSize hp1"
    using bs(2) by (simp add: cur'_def)
  have parts: "\<forall>part \<in> set (HashParts_h hp3).
        HashPart_n part = int (length (Hash_written (HashPart_h part))) \<and>
        Hash_digest (HashPart_h part) = HashParts_hasher hp3"
  proof
    fix part assume "part \<in> set (HashParts_h hp3)"
    then consider "part \<in> set (butlast (HashParts_h hp1))" | "part = cur'"
      by (auto simp: h3)
    then show "HashPart_n part = int (length (Hash_written (HashPart_h part))) \<and>
        Hash_digest (HashPart_h part) = HashParts_hasher hp3"
    proof cases
      case 1
      then have "part \<in> set (HashParts_h hp1)" by (rule in_set_butlastD)
      then show ?thesis using inv by (simp add: HashParts_inv_def hs)
    next
      case 2
      then show ?thesis
        by (simp add: cur'_def Hash_Write_def ncur lastc dcur hs)
    qed
  qed
  have full: "\<forall>c \<in> set (butlast (HashParts_contents hp3)). int (length c) = HashParts_partSize hp3"
    using inv by (simp add: c3 ps HashParts_inv_def)
  show "HashParts_inv hp3"
    unfolding HashParts_inv_def
    using parts full inv le n' p3
    by (simp add: c3 ps HashParts_inv_def) linarith
qed

lemma HashParts_Write_loop_inv:
  assumes "HashParts_inv hp"
  shows "\<exists>hp'. HashParts_Write_loop hp buf = Some hp' \<and> HashParts_inv hp' \<and>
           concat (HashParts_contents hp') = concat (HashParts_contents hp) @ buf \<and>
           HashParts_partSize hp' = HashParts_partSize hp \<and>
           HashParts_hasher hp' = HashParts_hasher hp \<and>
           HashParts_checksumAlgorithm hp' = HashParts_checksumAlgorithm hp \<and>
           (buf = [] \<longrightarrow> hp' = hp) \<and>
           (buf \<noteq> [] \<longrightarrow> HashParts_contents hp' \<noteq> [] \<and> last (HashParts_contents hp') \<noteq> [])"
  using assms
proof (induction "length buf" arbitrary: hp buf rule: less_induct)
  case less
  show ?case
  proof (cases "buf = []")
    case True
    then show ?thesis using less.prems
      by (subst HashParts_Write_loop.simps) simp
  next
    case False
    define hp1 where "hp1 = (if \<not> HashParts_p hp then HashParts_alloc hp else hp)"
    have inv1: "HashParts_inv hp1" and p1: "HashParts_p hp1"
      and c1: "concat (HashParts_contents hp1) = concat (HashParts_contents hp)"
      and f1: "HashParts_partSize hp1 = HashParts_partSize hp"
        "HashParts_hasher hp1 = HashParts_hasher hp"
        "HashParts_checksumAlgorithm hp1 = HashParts_checksumAlgorithm hp"
      using less.prems HashParts_alloc_inv [of hp] by (auto simp: hp1_def)
    have ne: "HashParts_h hp1 \<noteq> []"
      using inv1 p1 by (auto simp: HashParts_inv_def HashParts_contents_def)
    define cur where "cur = last (HashParts_h hp1)"
    have lastc: "last (HashParts_contents hp1) = Hash_written (HashPart_h cur)"
      using ne by (simp add: HashParts_contents_def last_map cur_def)
    have ncur: "HashPart_n cur = int (length (last (HashParts_contents hp1)))"
      using inv1 ne by (simp add: HashParts_inv_def lastc cur_def)
    have room: "HashPart_n cur < HashParts_partSize hp1"
      using inv1 p1 by (simp add: HashParts_inv_def ncur)
    define n where "n = (if HashPart_n cur + int (length buf) > HashParts_partSize hp1
                       then HashParts_partSize hp1 - HashPart_n cur else int (length buf))"
    have npos: "0 < n" and nle: "n \<le> int (length buf)"
      and nroom: "n \<le> HashParts_partSize hp1 - HashPart_n cur"
      using room False by (auto simp: n_def)
    define bs where "bs = take (nat n) buf"
    have lbs: "int (length bs) = n" using npos nle by (simp add: bs_def)
    have bsne: "bs \<noteq> []" using lbs npos by auto
    define cur' where "cur' = \<lparr>HashPart_n = HashPart_n cur + n,
                               HashPart_h = Hash_Write (HashPart_h cur) bs\<rparr>"
    define hp2 where "hp2 = hp1\<lparr>HashParts_h := butlast (HashParts_h hp1) @ [cur']\<rparr>"
    define hp3 where "hp3 = (if HashPart_n cur' = HashParts_partSize hp2
                              then hp2\<lparr>HashParts_p := False\<rparr> else hp2)"
    have fill: "HashParts_inv hp3"
      "HashParts_contents hp3 =
           butlast (HashParts_contents hp1) @ [last (HashParts_contents hp1) @ bs]"
      "HashParts_partSize hp3 = HashParts_partSize hp1"
      "HashParts_hasher hp3 = HashParts_hasher hp1"
      "HashParts_checksumAlgorithm hp3 = HashParts_checksumAlgorithm hp1"
      using HashParts_fill [OF inv1 p1 bsne, unfolded lbs, OF nroom [unfolded cur_def]]
      unfolding hp3_def hp2_def cur'_def cur_def lbs by simp_all
    have ps2: "HashParts_partSize hp2 = HashParts_partSize hp1"
      by (simp add: hp2_def)
    have unfold: "HashParts_Write_loop hp buf = HashParts_Write_loop hp3 (drop (nat n) buf)"
      using False ne npos
      apply (subst HashParts_Write_loop.simps)
      apply (simp add: Let_def hp1_def [symmetric] cur_def [symmetric] n_def [symmetric]
            bs_def [symmetric] cur'_def [symmetric] hp2_def [symmetric])
      apply (simp add: hp3_def ps2)
      done
    have shorter: "length (drop (nat n) buf) < length buf"
      using npos False by simp
    from less.hyps [OF shorter fill(1)] obtain hp' where
      r: "HashParts_Write_loop hp3 (drop (nat n) buf) = Some hp'" "HashParts_inv hp'"
        "concat (HashParts_contents hp') = concat (HashParts_contents hp3) @ drop (nat n) buf"
        "HashParts_partSize hp' = HashParts_partSize hp3"
        "HashParts_hasher hp' = HashParts_hasher hp3"
        "HashParts_checksumAlgorithm hp' = HashParts_checksumAlgorithm hp3"
        "drop (nat n) buf = [] \<longrightarrow> hp' = hp3"
        "drop (nat n) buf \<noteq> [] \<longrightarrow> HashParts_contents hp' \<noteq> [] \<and> last (HashParts_contents hp') \<noteq> []"
      by blast
    have cne: "HashParts_contents hp1 \<noteq> []"
      using ne by (simp add: HashParts_contents_def)
    have "concat (HashParts_contents hp3) = concat (HashParts_contents hp1) @ bs"
    proof -
      have "concat (HashParts_contents hp1) =
              concat (butlast (HashParts_contents hp1)) @ last (HashParts_contents hp1)"
        using cne by (metis append_butlast_last_id concat.simps(1,2) concat_append append_Nil2)
      then show ?thesis by (simp add: fill(2))
    qed
    then have conc: "concat (HashParts_contents hp') = concat (HashParts_contents hp) @ buf"
      by (simp add: r(3) c1 bs_def)
    have lastne: "HashParts_contents hp' \<noteq> [] \<and> last (HashParts_contents hp') \<noteq> []"
    proof (cases "drop (nat n) buf = []")
      case True
      then have "hp' = hp3" using r(7) by simp
      then show ?thesis using bsne by (simp add: fill(2))
    next
      case False
      then show ?thesis using r(8) by simp
    qed
    show ?thesis
      using r(1,2,4,5,6) conc lastne False fill(3,4,5) f1 unfold by simp
  qed
qed

lemma HashParts_Write_inv:
  assumes "HashParts_inv hp"
  shows "\<exists>hp'. HashParts_Write hp buf = Some hp' \<and> HashParts_inv hp' \<and>
           concat (HashParts_contents hp') = concat (HashParts_contents hp) @ buf \<and>
           HashParts_partSize hp' = HashParts_partSize hp \<and>
           HashParts_hasher hp' = HashParts_hasher hp \<and>
           HashParts_checksumAlgorithm hp' = HashParts_checksumAlgorithm hp \<and>
           (buf \<noteq> [] \<longrightarrow> HashParts_contents hp' \<noteq> [] \<and> last (HashParts_contents hp') \<noteq> [])"
proof -
  define hp1 where "hp1 = (if \<not> HashParts_p hp then HashParts_alloc hp else hp)"
  have inv1: "HashParts_inv hp1"
    and c1: "concat (HashParts_contents hp1) = concat (HashParts_contents hp)"
    and f1: "HashParts_partSize hp1 = HashParts_partSize hp"
      "HashParts_hasher hp1 = HashParts_hasher hp"
      "HashParts_checksumAlgorithm hp1 = HashParts_checksumAlgorithm hp"
    using assms HashParts_alloc_inv [of hp] by (auto simp: hp1_def)
  from HashParts_Write_loop_inv [OF inv1, of buf] show ?thesis
    unfolding HashParts_Write_def hp1_def [symmetric] by (auto simp: c1 f1)
qed

lemma HashParts_writes_inv:
  assumes "HashParts_inv hp"
  shows "\<exists>hp'. HashParts_writes hp ws = Some hp' \<and> HashParts_inv hp' \<and>
           concat (HashParts_contents hp') = concat (HashParts_contents hp) @ concat ws \<and>
           HashParts_partSize hp' = HashParts_partSize hp \<and>
           HashParts_hasher hp' = HashParts_hasher hp \<and>
           HashParts_checksumAlgorithm hp' = HashParts_checksumAlgorithm hp \<and>
           (ws \<noteq> [] \<and> [] \<notin> set ws \<longrightarrow>
              HashParts_contents hp' \<noteq> [] \<and> last (HashParts_contents hp') \<noteq> [])"
  using assms
proof (induction ws arbitrary: hp rule: rev_induct)
  case Nil
  then show ?case by simp
next
  case (snoc w ws)
  have app: "HashParts_writes hp (ws @ [w]) =
      (case HashParts_writes hp ws of None \<Rightarrow> None | Some hp' \<Rightarrow> HashParts_Write hp' w)" for hp
    by (induction ws arbitrary: hp) (auto split: option.splits)
  from snoc.IH [OF snoc.prems] obtain hp1 where
    a: "HashParts_writes hp ws = Some hp1" "HashParts_inv hp1"
      "concat (HashParts_contents hp1) = concat (HashParts_contents hp) @ concat ws"
      "HashParts_partSize hp1 = HashParts_partSize hp"
      "HashParts_hasher hp1 = HashParts_hasher hp"
      "HashParts_checksumAlgorithm hp1 = HashParts_checksumAlgorithm hp"
    by blast
  from HashParts_Write_inv [OF a(2), of w] obtain hp2 where
    b: "HashParts_Write hp1 w = Some hp2" "HashParts_inv hp2"
      "concat (HashParts_contents hp2) = concat (HashParts_contents hp1) @ w"
      "HashParts_partSize hp2 = HashParts_partSize hp1"
      "HashParts_hasher hp2 = HashParts_hasher hp1"
      "HashParts_checksumAlgorithm hp2 = HashParts_checksumAlgorithm hp1"
      "w \<noteq> [] \<longrightarrow> HashParts_contents hp2 \<noteq> [] \<and> last (HashParts_contents hp2) \<noteq> []"
    by blast
  show ?case
    using a b by (auto simp: app)
qed


lemma chunk_nth:
  fixes cs :: "'a list list"
  assumes "\<forall>c \<in> set (butlast cs). length c = k" and "i < length cs"
    and "length (last cs) \<le> k"
  shows "cs ! i = take k (drop (i * k) (concat cs))"
  using assms
proof (induction cs arbitrary: i)
  case Nil
  then show ?case by simp
next
  case (Cons c cs)
  show ?case
  proof (cases "cs = []")
    case True
    then show ?thesis using Cons.prems by simp
  next
    case False
    then have lc: "length c = k" and rest: "\<forall>c \<in> set (butlast cs). length c = k"
      and lastc: "length (last cs) \<le> k"
      using Cons.prems by auto
    show ?thesis
    proof (cases i)
      case 0
      then show ?thesis using lc by simp
    next
      case (Suc j)
      then have "j < length cs" using Cons.prems by simp
      from Cons.IH [OF rest this lastc] show ?thesis
        using Suc lc by simp
    qed
  qed
qed

lemma chunk_length_concat:
  fixes cs :: "'a list list"
  assumes "\<forall>c \<in> set (butlast cs). length c = k" and "cs \<noteq> []"
  shows "length (concat cs) = (length cs - 1) * k + length (last cs)"
  using assms
proof (induction cs)
  case Nil
  then show ?case by simp
next
  case (Cons c cs)
  show ?case
  proof (cases "cs = []")
    case True
    then show ?thesis by simp
  next
    case False
    then have "length c = k" "\<forall>c \<in> set (butlast cs). length c = k"
      using Cons.prems by auto
    with Cons.IH False show ?thesis
      by (cases cs) auto
  qed
qed

lemma chunk_unique:
  fixes cs ds :: "'a list list"
  assumes "0 < k"
    and "\<forall>c \<in> set (butlast cs). length c = k" "cs \<noteq> [] \<longrightarrow> last cs \<noteq> [] \<and> length (last cs) \<le> k"
    and "\<forall>c \<in> set (butlast ds). length c = k" "ds \<noteq> [] \<longrightarrow> last ds \<noteq> [] \<and> length (last ds) \<le> k"
    and "concat cs = concat ds"
  shows "cs = ds"
proof -
  have len: "length xs = (length (concat xs) + k - 1) div k"
    if "\<forall>c \<in> set (butlast xs). length c = k" "xs \<noteq> [] \<longrightarrow> last xs \<noteq> [] \<and> length (last xs) \<le> k"
    for xs :: "'a list list"
  proof (cases "xs = []")
    case True
    then show ?thesis using \<open>0 < k\<close> by simp
  next
    case False
    define m where "m = length xs - 1"
    define r where "r = length (last xs)"
    have "length (concat xs) = m * k + r"
      using chunk_length_concat [OF that(1) False] by (simp add: m_def r_def)
    moreover have "0 < r" "r \<le> k" using that(2) False by (auto simp: r_def)
    ultimately have "length (concat xs) + k - 1 = (r - 1) + (m + 1) * k" "r - 1 < k"
      by (simp_all add: algebra_simps)
    moreover have "(q + (m + 1) * k) div k = m + 1" if "q < k" for q
      using that \<open>0 < k\<close>
      by (metis Euclidean_Rings.div_eq_0_iff Nat.add_0_right
          bot_nat_0.not_eq_extremum div_mult_self1)
    ultimately have "(length (concat xs) + k - 1) div k = m + 1"
      by simp
    then show ?thesis using False by (simp add: m_def)
  qed
  have l: "length cs = length ds"
    using len [OF assms(2,3)] len [OF assms(4,5)] assms(6) by simp
  show ?thesis
  proof (rule nth_equalityI [OF l])
    fix i assume i: "i < length cs"
    then have "cs \<noteq> []" "ds \<noteq> []" using l by auto
    then have "cs ! i = take k (drop (i * k) (concat cs))"
      "ds ! i = take k (drop (i * k) (concat ds))"
      using chunk_nth [OF assms(2) i] chunk_nth [OF assms(4), of i] assms(3,5) i l by auto
    then show "cs ! i = ds ! i" using assms(6) by simp
  qed
qed

lemma HashParts_h_of_contents:
  assumes "HashParts_inv hp"
  shows "HashParts_h hp =
    map (\<lambda>c. \<lparr>HashPart_n = int (length c),
               HashPart_h = \<lparr>Hash_digest = HashParts_hasher hp, Hash_written = c\<rparr>\<rparr>)
      (HashParts_contents hp)"
proof -
  have "part = \<lparr>HashPart_n = int (length (Hash_written (HashPart_h part))),
               HashPart_h = \<lparr>Hash_digest = HashParts_hasher hp,
                              Hash_written = Hash_written (HashPart_h part)\<rparr>\<rparr>"
    if "part \<in> set (HashParts_h hp)" for part
  proof -
    have "HashPart_n part = int (length (Hash_written (HashPart_h part)))"
      "Hash_digest (HashPart_h part) = HashParts_hasher hp"
      using assms that by (auto simp: HashParts_inv_def)
    then show ?thesis by simp
  qed
  then show ?thesis
    unfolding HashParts_contents_def map_map comp_def
    by (simp add: map_idI [symmetric])
qed

lemma HashParts_canonical:
  assumes "HashParts_inv hp1" "HashParts_inv hp2"
    and "HashParts_contents hp1 \<noteq> [] \<longrightarrow> last (HashParts_contents hp1) \<noteq> []"
    and "HashParts_contents hp2 \<noteq> [] \<longrightarrow> last (HashParts_contents hp2) \<noteq> []"
    and "concat (HashParts_contents hp1) = concat (HashParts_contents hp2)"
    and "HashParts_partSize hp1 = HashParts_partSize hp2"
    and "HashParts_hasher hp1 = HashParts_hasher hp2"
    and "HashParts_checksumAlgorithm hp1 = HashParts_checksumAlgorithm hp2"
    and "HashParts.more hp1 = HashParts.more hp2"
  shows "hp1 = hp2"
proof -
  define k where "k = nat (HashParts_partSize hp1)"
  have k: "0 < k" "int k = HashParts_partSize hp1" "int k = HashParts_partSize hp2"
    using assms(1,6) by (auto simp: HashParts_inv_def k_def)
  have shape: "(\<forall>c \<in> set (butlast (HashParts_contents hp)). length c = k) \<and>
      (HashParts_contents hp \<noteq> [] \<longrightarrow> length (last (HashParts_contents hp)) \<le> k)"
    if "HashParts_inv hp" "HashParts_partSize hp = int k" for hp
    using that by (auto simp: HashParts_inv_def)
  have cs: "HashParts_contents hp1 = HashParts_contents hp2"
    using chunk_unique [OF k(1), of "HashParts_contents hp1" "HashParts_contents hp2"]
      shape [OF assms(1)] shape [OF assms(2)] k assms(3,4,5) by auto
  have h: "HashParts_h hp1 = HashParts_h hp2"
    using HashParts_h_of_contents [OF assms(1)] HashParts_h_of_contents [OF assms(2)]
    by (simp add: cs assms(7))
  have p: "HashParts_p hp1 = HashParts_p hp2"
    using assms(1,2,6) by (simp add: HashParts_inv_def cs)
  show ?thesis
    using h p assms(6,7,8,9) by (intro HashParts.equality) simp_all
qed

lemma Hash_Write_append: "Hash_Write (Hash_Write h a) b = Hash_Write h (a @ b)"
  by (simp add: Hash_Write_def)

lemma S3Hasher_writes_eq:
  assumes "HashParts_inv (S3Hasher_algo_parts hr)" "HashParts_inv (S3Hasher_md5_parts hr)"
  shows "\<exists>ap mp. HashParts_writes (S3Hasher_algo_parts hr) ws = Some ap \<and>
           HashParts_writes (S3Hasher_md5_parts hr) ws = Some mp \<and>
           S3Hasher_writes hr ws =
             Some (hr\<lparr>S3Hasher_full_algo := Hash_Write (S3Hasher_full_algo hr) (concat ws),
                      S3Hasher_algo_parts := ap,
                      S3Hasher_full_md5 := Hash_Write (S3Hasher_full_md5 hr) (concat ws),
                      S3Hasher_md5_parts := mp\<rparr>)"
  using assms
proof (induction ws arbitrary: hr)
  case Nil
  show ?case by (simp add: Hash_Write_def)
next
  case (Cons w ws)
  from HashParts_Write_inv [OF Cons.prems(1), of w] obtain ap1 where
    a: "HashParts_Write (S3Hasher_algo_parts hr) w = Some ap1" "HashParts_inv ap1" by blast
  from HashParts_Write_inv [OF Cons.prems(2), of w] obtain mp1 where
    m: "HashParts_Write (S3Hasher_md5_parts hr) w = Some mp1" "HashParts_inv mp1" by blast
  define hr1 where "hr1 = hr\<lparr>S3Hasher_full_algo := Hash_Write (S3Hasher_full_algo hr) w,
                        S3Hasher_algo_parts := ap1,
                        S3Hasher_full_md5 := Hash_Write (S3Hasher_full_md5 hr) w,
                        S3Hasher_md5_parts := mp1\<rparr>"
  have w1: "S3Hasher_write hr w = Some hr1"
    by (simp add: S3Hasher_write_def a m hr1_def)
  have "HashParts_inv (S3Hasher_algo_parts hr1)" "HashParts_inv (S3Hasher_md5_parts hr1)"
    using a m by (simp_all add: hr1_def)
  from Cons.IH [OF this] obtain ap mp where
    r: "HashParts_writes (S3Hasher_algo_parts hr1) ws = Some ap"
      "HashParts_writes (S3Hasher_md5_parts hr1) ws = Some mp"
      "S3Hasher_writes hr1 ws =
             Some (hr1\<lparr>S3Hasher_full_algo := Hash_Write (S3Hasher_full_algo hr1) (concat ws),
                      S3Hasher_algo_parts := ap,
                      S3Hasher_full_md5 := Hash_Write (S3Hasher_full_md5 hr1) (concat ws),
                      S3Hasher_md5_parts := mp\<rparr>)"
    by blast
  show ?case
    using r a m w1 by (simp add: hr1_def Hash_Write_append)
qed

lemma HashParts_sizes_sum:
  assumes "HashParts_inv hp"
  shows "sum_list (map HashPart_n (HashParts_h hp)) = int (length (concat (HashParts_contents hp)))"
proof -
  have "sum_list (map HashPart_n xs) =
      int (length (concat (map (\<lambda>part. Hash_written (HashPart_h part)) xs)))"
    if "\<forall>part \<in> set xs. HashPart_n part = int (length (Hash_written (HashPart_h part)))"
    for xs :: "HashPart list"
    using that by (induction xs) auto
  then show ?thesis
    using assms by (simp add: HashParts_inv_def HashParts_contents_def)
qed

text \<open>
  Claim C4.  With a positive part size, two sequences of non-empty writes that carry the
  same bytes leave the hasher in the same state: the same \<open>SumOfSums\<close>, the same
  full-body digest, the same part count, and for every part index the same digest and the
  same size.
\<close>

theorem S3Hasher_write_boundaries:
  assumes "0 < partSize" and "concat ws1 = concat ws2"
    and "[] \<notin> set ws1" and "[] \<notin> set ws2"
  shows "\<exists>hr1 hr2.
    S3Hasher_writes (NewS3Hasher H algo partSize) ws1 = Some hr1 \<and>
    S3Hasher_writes (NewS3Hasher H algo partSize) ws2 = Some hr2 \<and>
    S3Hasher_SumOfSums hr1 = S3Hasher_SumOfSums hr2 \<and>
    S3Hasher_Sum hr1 = S3Hasher_Sum hr2 \<and>
    S3Hasher_Count hr1 = S3Hasher_Count hr2 \<and>
    (\<forall>i. S3Hasher_SumPart hr1 i = S3Hasher_SumPart hr2 i) \<and>
    (\<forall>i. S3Hasher_PartSize hr1 i = S3Hasher_PartSize hr2 i) \<and>
    hr1 = hr2"
proof -
  define hr0 where "hr0 = NewS3Hasher H algo partSize"
  have inv0: "HashParts_inv (S3Hasher_algo_parts hr0)" "HashParts_inv (S3Hasher_md5_parts hr0)"
    using assms(1) by (simp_all add: hr0_def NewS3Hasher_def HashParts_inv_New)
  have c0: "HashParts_contents (S3Hasher_algo_parts hr0) = []"
    "HashParts_contents (S3Hasher_md5_parts hr0) = []"
    by (simp_all add: hr0_def NewS3Hasher_def NewHashParts_def HashParts_contents_def)
  have final: "\<exists>hp'. HashParts_writes hp ws = Some hp' \<and> HashParts_inv hp' \<and>
      concat (HashParts_contents hp') = concat ws \<and>
      HashParts_partSize hp' = HashParts_partSize hp \<and>
      HashParts_hasher hp' = HashParts_hasher hp \<and>
      HashParts_checksumAlgorithm hp' = HashParts_checksumAlgorithm hp \<and>
      HashParts.more hp' = HashParts.more hp \<and>
      (HashParts_contents hp' \<noteq> [] \<longrightarrow> last (HashParts_contents hp') \<noteq> [])"
    if "HashParts_inv hp" "HashParts_contents hp = []" "[] \<notin> set ws" for hp ws
  proof (cases "ws = []")
    case True
    then show ?thesis using that by simp
  next
    case False
    from HashParts_writes_inv [OF that(1), of ws] show ?thesis
      using that(2,3) False by auto
  qed
  have same: "\<exists>hp'. HashParts_writes hp ws1 = Some hp' \<and> HashParts_writes hp ws2 = Some hp'"
    if "HashParts_inv hp" "HashParts_contents hp = []" for hp
  proof -
    from final [OF that assms(3)] obtain a where
      a: "HashParts_writes hp ws1 = Some a" "HashParts_inv a"
        "concat (HashParts_contents a) = concat ws1"
        "HashParts_partSize a = HashParts_partSize hp"
        "HashParts_hasher a = HashParts_hasher hp"
        "HashParts_checksumAlgorithm a = HashParts_checksumAlgorithm hp"
        "HashParts.more a = HashParts.more hp"
        "HashParts_contents a \<noteq> [] \<longrightarrow> last (HashParts_contents a) \<noteq> []"
      by blast
    from final [OF that assms(4)] obtain b where
      b: "HashParts_writes hp ws2 = Some b" "HashParts_inv b"
        "concat (HashParts_contents b) = concat ws2"
        "HashParts_partSize b = HashParts_partSize hp"
        "HashParts_hasher b = HashParts_hasher hp"
        "HashParts_checksumAlgorithm b = HashParts_checksumAlgorithm hp"
        "HashParts.more b = HashParts.more hp"
        "HashParts_contents b \<noteq> [] \<longrightarrow> last (HashParts_contents b) \<noteq> []"
      by blast
    have "a = b"
      using a b assms(2) by (intro HashParts_canonical) simp_all
    then show ?thesis using a(1) b(1) by simp
  qed
  from same [OF inv0(1) c0(1)] obtain ap where
    ap: "HashParts_writes (S3Hasher_algo_parts hr0) ws1 = Some ap"
      "HashParts_writes (S3Hasher_algo_parts hr0) ws2 = Some ap" by blast
  from same [OF inv0(2) c0(2)] obtain mp where
    mp: "HashParts_writes (S3Hasher_md5_parts hr0) ws1 = Some mp"
      "HashParts_writes (S3Hasher_md5_parts hr0) ws2 = Some mp" by blast
  from S3Hasher_writes_eq [OF inv0, of ws1] S3Hasher_writes_eq [OF inv0, of ws2]
  have "S3Hasher_writes hr0 ws1 = S3Hasher_writes hr0 ws2" "S3Hasher_writes hr0 ws1 \<noteq> None"
    using ap mp assms(2) by auto
  then show ?thesis
    unfolding hr0_def by auto
qed

theorem S3Hasher_write_boundaries_witness:
  "S3Hasher_writes (NewS3Hasher (\<lambda>algo bs. rev bs) ChecksumAlgorithmSHA256 2) [[1, 2, 3], [4]] =
   S3Hasher_writes (NewS3Hasher (\<lambda>algo bs. rev bs) ChecksumAlgorithmSHA256 2) [[1], [2, 3, 4]]"
proof -
  have h1: "(0::int) < 2" by simp
  have h2: "concat [[1, 2, 3], [4 :: byte]] = concat [[1], [2, 3, 4]]" by simp
  have h3: "[] \<notin> set [[1, 2, 3], [4 :: byte]]" by simp
  have h4: "[] \<notin> set [[1], [2, 3, 4 :: byte]]" by simp
  from S3Hasher_write_boundaries [OF h1 h2 h3 h4, of "\<lambda>algo bs. rev bs" ChecksumAlgorithmSHA256]
  show ?thesis by auto
qed

text \<open>
  Claim C9.  After any sequence of writes to a hasher with a positive part size, the part
  sizes add up to the number of bytes written; part \<open>i\<close> holds exactly the bytes
  \<open>(i - 1) * partSize \<dots> i * partSize - 1\<close> of the concatenated writes, \<open>PartSize\<close> is
  their number and \<open>SumPart\<close> their digest; every part before the last holds exactly
  \<open>partSize\<close> bytes.
\<close>

theorem S3Hasher_parts_of_writes:
  assumes "0 < partSize"
  shows "\<exists>hr. S3Hasher_writes (NewS3Hasher H algo partSize) ws = Some hr \<and>
    S3Hasher_Size hr = int (length (concat ws)) \<and>
    (\<forall>i. 1 \<le> i \<and> i \<le> int (S3Hasher_Count hr) \<longrightarrow>
       S3Hasher_PartSize hr i =
         Some (int (length (take (nat partSize) (drop (nat (i - 1) * nat partSize) (concat ws))))) \<and>
       S3Hasher_SumPart hr i =
         Some (H algo (take (nat partSize) (drop (nat (i - 1) * nat partSize) (concat ws))))) \<and>
    (\<forall>i. 1 \<le> i \<and> i < int (S3Hasher_Count hr) \<longrightarrow> S3Hasher_PartSize hr i = Some partSize)"
proof -
  define hr0 where "hr0 = NewS3Hasher H algo partSize"
  define k where "k = nat partSize"
  have inv0: "HashParts_inv (S3Hasher_algo_parts hr0)" "HashParts_inv (S3Hasher_md5_parts hr0)"
    using assms(1) by (simp_all add: hr0_def NewS3Hasher_def HashParts_inv_New)
  from S3Hasher_writes_eq [OF inv0, of ws] obtain ap mp where
    w: "HashParts_writes (S3Hasher_algo_parts hr0) ws = Some ap"
      "S3Hasher_writes hr0 ws =
             Some (hr0\<lparr>S3Hasher_full_algo := Hash_Write (S3Hasher_full_algo hr0) (concat ws),
                      S3Hasher_algo_parts := ap,
                      S3Hasher_full_md5 := Hash_Write (S3Hasher_full_md5 hr0) (concat ws),
                      S3Hasher_md5_parts := mp\<rparr>)"
    by blast
  define hr where "hr = hr0\<lparr>S3Hasher_full_algo := Hash_Write (S3Hasher_full_algo hr0) (concat ws),
                      S3Hasher_algo_parts := ap,
                      S3Hasher_full_md5 := Hash_Write (S3Hasher_full_md5 hr0) (concat ws),
                      S3Hasher_md5_parts := mp\<rparr>"
  have ap_hr: "S3Hasher_algo_parts hr = ap" by (simp add: hr_def)
  from HashParts_writes_inv [OF inv0(1), of ws] w(1)
  have ap: "HashParts_inv ap" "concat (HashParts_contents ap) = concat ws"
    "HashParts_partSize ap = partSize" "HashParts_hasher ap = H algo"
    by (auto simp: hr0_def NewS3Hasher_def NewHashParts_def HashParts_contents_def)
  define cs where "cs = HashParts_contents ap"
  have full: "\<forall>c \<in> set (butlast cs). length c = k"
    and lastle: "cs \<noteq> [] \<longrightarrow> length (last cs) \<le> k"
    using ap(1,3) unfolding cs_def k_def HashParts_inv_def by auto
  have h: "HashParts_h ap =
    map (\<lambda>c. \<lparr>HashPart_n = int (length c),
               HashPart_h = \<lparr>Hash_digest = H algo, Hash_written = c\<rparr>\<rparr>) cs"
    using HashParts_h_of_contents [OF ap(1)] by (simp add: ap(4) cs_def)
  have len: "length (HashParts_h ap) = length cs" by (simp add: h)
  have size: "S3Hasher_Size hr = int (length (concat ws))"
    using HashParts_sizes_sum [OF ap(1)] by (simp add: S3Hasher_Size_def ap_hr ap(2))
  have part: "S3Hasher_PartSize hr i =
         Some (int (length (take k (drop (nat (i - 1) * k) (concat ws))))) \<and>
       S3Hasher_SumPart hr i =
         Some (H algo (take k (drop (nat (i - 1) * k) (concat ws))))"
    if "1 \<le> i" "i \<le> int (S3Hasher_Count hr)" for i
  proof -
    have j: "nat (i - 1) < length cs"
      using that by (simp add: S3Hasher_Count_def HashParts_Count_def ap_hr len)
    then have "cs \<noteq> []" by auto
    then have "cs ! nat (i - 1) = take k (drop (nat (i - 1) * k) (concat cs))"
      using chunk_nth [OF full j] lastle by simp
    then have c: "cs ! nat (i - 1) = take k (drop (nat (i - 1) * k) (concat ws))"
      by (simp add: cs_def ap(2))
    have rng: "i \<le> int (length (HashParts_h ap))"
      using that by (simp add: S3Hasher_Count_def HashParts_Count_def ap_hr)
    show ?thesis
      using that(1) rng j
      by (simp add: S3Hasher_PartSize_def S3Hasher_SumPart_def HashParts_PartSize_def
          HashParts_Sum_def ap_hr h Hash_Sum_def c [symmetric])
  qed
  have before_last: "S3Hasher_PartSize hr i = Some partSize"
    if "1 \<le> i" "i < int (S3Hasher_Count hr)" for i
  proof -
    have j: "nat (i - 1) < length cs - 1"
      using that by (simp add: S3Hasher_Count_def HashParts_Count_def ap_hr len)
    then have "butlast cs ! nat (i - 1) \<in> set (butlast cs)" by simp
    then have "length (cs ! nat (i - 1)) = k"
      using full j by (simp add: nth_butlast)
    moreover have "i \<le> int (length (HashParts_h ap))" "nat (i - 1) < length cs"
      using that j by (simp_all add: S3Hasher_Count_def HashParts_Count_def ap_hr)
    ultimately show ?thesis
      using that(1) assms by (simp add: S3Hasher_PartSize_def HashParts_PartSize_def ap_hr h k_def)
  qed
  have w2: "S3Hasher_writes (NewS3Hasher H algo partSize) ws = Some hr"
    using w(2) by (simp add: hr_def hr0_def)
  show ?thesis
    using w2 size part before_last unfolding k_def by blast
qed

theorem S3Hasher_parts_of_writes_witness:
  "\<exists>hr. S3Hasher_writes (NewS3Hasher (\<lambda>algo bs. rev bs) ChecksumAlgorithmSHA256 2)
           [[1, 2, 3], [], [4, 5]] = Some hr \<and>
     S3Hasher_Size hr = 5 \<and>
     (1 < int (S3Hasher_Count hr) \<longrightarrow> S3Hasher_PartSize hr 1 = Some 2)"
proof -
  have h1: "(0::int) < 2" by simp
  from S3Hasher_parts_of_writes [OF h1, of "\<lambda>algo bs. rev bs" ChecksumAlgorithmSHA256
      "[[1, 2, 3], [], [4, 5]]"]
  obtain hr where
    a: "S3Hasher_writes (NewS3Hasher (\<lambda>algo bs. rev bs) ChecksumAlgorithmSHA256 2)
           [[1, 2, 3], [], [4, 5]] = Some hr"
      "S3Hasher_Size hr = int (length (concat [[1, 2, 3], [], [4, 5 :: byte]]))"
      "\<forall>i. 1 \<le> i \<and> i < int (S3Hasher_Count hr) \<longrightarrow> S3Hasher_PartSize hr i = Some 2"
    by blast
  show ?thesis using a by auto
qed

subsection \<open>Completion of a multi-part upload\<close>

lemma hasher_two_parts_reached:
  "S3Hasher_writes (NewS3Hasher (\<lambda>algo bs. bs) ChecksumAlgorithmSHA256 2) [[1, 2, 3]] =
     Some hasher_two_parts"
  by (simp add: S3Hasher_write_def HashParts_Write_def NewS3Hasher_def NewHashParts_def
     HashParts_alloc_def Hash_New_def Hash_Write_def HashParts_Write_loop.simps Let_def
     hasher_two_parts_def)

lemma session_created_reached:
  "NewS3UploadParts s3_accepting hasher_two_parts create_b_k 10000 1 [] =
     (Inr session_created, [CallCreateMultipartUpload create_b_k])"
  by (simp add: NewS3UploadParts_def s3_accepting_def session_created_def)

lemma completeParts_nil_mutex:
  "st_mu p = None \<Longrightarrow> completeParts p = Inl (Panic ''nil pointer dereference'')"
  by (simp add: completeParts_def)

lemma setPartResults_nil_mutex:
  "st_mu p = None \<Longrightarrow> setPartResults p partID out err = Inl (Panic ''nil pointer dereference'')"
  by (simp add: setPartResults_def)

lemma NewS3UploadParts_nil_mutex:
  "NewS3UploadParts s3 hr create maxPartID concurrentParts calls = (Inr p, calls') \<Longrightarrow>
     st_mu (sup_st p) = None"
  by (auto simp: NewS3UploadParts_def S3UploadState_empty_def Let_def
      split: prod.splits option.splits)

text \<open>
  Claim C1 (the code departs from it).  The session that \<open>NewS3UploadParts\<close> returns has
  no mutex in its state, so \<open>completeParts\<close> panics on its first statement: with the
  results of the parts 1 and 2 recorded, a dense index set, \<open>CompleteUpload\<close> neither
  returns nor sends a request and records nothing.  With a mutex stored in the state the
  same session is completed; and a session with a mutex whose only recorded part is part
  2 passes the density check as well, because \<open>completeParts\<close> starts its loop at the
  second entry of the sorted parts and never compares the first entry with 1:
  \<open>CompleteUpload\<close> returns no error and sends \<open>CompleteMultipartUpload\<close> with the single
  part 2.
\<close>

theorem CompleteUpload_nil_mutex_and_part_2:
  "CompleteUpload s3_accepting session_parts_1_2 [] =
     (Some (Panic ''nil pointer dereference''), session_parts_1_2, []) \<and>
   fst (CompleteUpload s3_accepting session_locked_parts_1_2 []) = None \<and>
   snd (snd (CompleteUpload s3_accepting session_locked_parts_1_2 [])) =
     [CallCompleteMultipartUpload
        \<lparr>CompleteInput_Bucket = ''b'', CompleteInput_Key = ''k'',
         CompleteInput_UploadId = Some ''upload-1'',
         CompleteInput_Parts =
           [\<lparr>CompletedPart_ETag = Some ''etag'', CompletedPart_PartNumber = 1,
             CompletedPart_Checksum = Some (ChecksumAlgorithmSHA256, [1, 2])\<rparr>,
            \<lparr>CompletedPart_ETag = Some ''etag'', CompletedPart_PartNumber = 2,
             CompletedPart_Checksum = Some (ChecksumAlgorithmSHA256, [3])\<rparr>]\<rparr>,
      CallGetObjectAttributes ''b'' ''k''] \<and>
   fst (CompleteUpload s3_accepting session_locked_part_2 []) = None \<and>
   st_completedError (sup_st (fst (snd (CompleteUpload s3_accepting session_locked_part_2 [])))) =
     None \<and>
   snd (snd (CompleteUpload s3_accepting session_locked_part_2 [])) =
     [CallCompleteMultipartUpload
        \<lparr>CompleteInput_Bucket = ''b'', CompleteInput_Key = ''k'',
         CompleteInput_UploadId = Some ''upload-1'',
         CompleteInput_Parts =
           [\<lparr>CompletedPart_ETag = Some ''etag'', CompletedPart_PartNumber = 2,
             CompletedPart_Checksum = Some (ChecksumAlgorithmSHA256, [3])\<rparr>]\<rparr>,
      CallGetObjectAttributes ''b'' ''k'']"
  by (simp add: CompleteUpload_def completeParts_def session_parts_1_2_def
      session_locked_parts_1_2_def session_locked_part_2_def session_created_def
      S3UploadState_empty_def create_b_k_def NewPartCounter_def
      hasher_two_parts_def s3_accepting_def S3Hasher_SumPart_def HashParts_Sum_def
      Hash_Sum_def S3Hasher_ChecksumAlgorithm_def checksum_field_def)

subsection \<open>Closing a slice twice\<close>

lemma memBuffer_Close_twice:
  assumes "memBuffer_Close w p = (e1, p1, w1)" and "memBuffer_Close w1 p1 = (e2, p2, w2)"
  shows "e1 = None \<and> e2 = None \<and> w2 = w1 \<and> w_pool_puts w2 \<le> w_pool_puts w + 1"
  using assms by (auto simp: memBuffer_Close_def BufferPool_Put_def split: if_splits)

lemma ReaderAtSlice_Close_twice:
  assumes "SourceReader_Close w (ReaderAtSlice r off n) = (e1, sr1, w1)"
    and "SourceReader_Close w1 sr1 = (e2, sr2, w2)"
  shows "e1 = None \<and> e2 = None \<and> w2 = w"
  using assms by auto

text \<open>
  Claim C3 (the code departs from it for the temp-file variant).  The slice that
  \<open>tempfSource.Next\<close> returns for a three-byte input is closed twice: the first \<open>Close\<close>
  returns nil, the second returns the error of closing an already closed file, and
  \<open>os.Remove\<close> has been called twice on the file.
\<close>

theorem tempf_slice_second_Close_fails:
  "(case tempfSource_Next 4 \<lparr>tfs_r = [Ev [1, 2, 3] None], tfs_partSize = 5\<rparr> world_empty of
      Some (Inr sr, p', w) \<Rightarrow>
        (case SourceReader_Close w sr of
           (e1, sr1, w1) \<Rightarrow>
             (case SourceReader_Close w1 sr1 of
                (e2, sr2, w2) \<Rightarrow>
                  sr = TempfSlice 0 3 \<and> SourceReader_bytes w sr = Inr [1, 2, 3] \<and>
                  e1 = None \<and> e2 = Some ErrClosed \<and>
                  map tf_close_calls (w_files w2) = [2] \<and>
                  map tf_remove_calls (w_files w2) = [2]))
    | _ \<Rightarrow> False)"
  by (simp add: tempfSource_Next_def os_CreateTemp_def world_empty_def tempf_spool.simps
      LimitedReader_Read_def File_Write_def File_Seek_def tempfBuffer_Close_def File_Close_def
      os_Remove_def File_ReadAll_def Let_def)

subsection \<open>The memory spool\<close>

lemma Reader_Read_props:
  assumes "Reader_Read r k = ((bs, err), r')"
  shows "Reader_bytes r = bs @ Reader_bytes r'"
    and "length bs \<le> k"
    and "Reader_weight r' \<le> Reader_weight r"
    and "0 < k \<Longrightarrow> err = None \<Longrightarrow> Reader_weight r' < Reader_weight r"
  using assms
  by (cases "(r, k)" rule: Reader_Read.cases;
      auto simp: Reader_bytes_def Reader_weight_def split: if_splits)+

lemma LimitedReader_Read_props:
  assumes "LimitedReader_Read l k = ((bs, err), l')"
  shows "Reader_bytes (lr_R l) = bs @ Reader_bytes (lr_R l')"
    and "lr_N l' = lr_N l - int (length bs)"
    and "0 \<le> lr_N l \<Longrightarrow> int (length bs) \<le> lr_N l"
    and "Reader_weight (lr_R l') \<le> Reader_weight (lr_R l)"
    and "0 < k \<Longrightarrow> err = None \<Longrightarrow> Reader_weight (lr_R l') < Reader_weight (lr_R l)"
proof -
  show "Reader_bytes (lr_R l) = bs @ Reader_bytes (lr_R l')"
    "lr_N l' = lr_N l - int (length bs)"
    "Reader_weight (lr_R l') \<le> Reader_weight (lr_R l)"
    using assms Reader_Read_props(1,3)
    by (auto simp: LimitedReader_Read_def Let_def split: if_splits prod.splits)
  show "int (length bs) \<le> lr_N l" if "0 \<le> lr_N l"
    using assms that Reader_Read_props(2)
    by (fastforce simp: LimitedReader_Read_def Let_def split: if_splits prod.splits)
  show "Reader_weight (lr_R l') < Reader_weight (lr_R l)" if "0 < k" "err = None"
  proof (cases "lr_N l \<le> 0")
    case True
    then show ?thesis using assms that by (simp add: LimitedReader_Read_def)
  next
    case False
    define k' where "k' = (if int k > lr_N l then nat (lr_N l) else k)"
    have "0 < k'" using False that(1) by (simp add: k'_def)
    moreover have "Reader_Read (lr_R l) k' = ((bs, err), lr_R l')"
      using assms False
      by (auto simp: LimitedReader_Read_def Let_def k'_def split: prod.splits)
    ultimately show ?thesis using Reader_Read_props(4) that(2) by blast
  qed
qed

lemma mem_spool_total:
  assumes "0 < chunk"
  shows "\<exists>bs lr'. mem_spool chunk lr buf = Some (buf @ bs, lr') \<and>
           Reader_bytes (lr_R lr) = bs @ Reader_bytes (lr_R lr') \<and>
           lr_N lr' = lr_N lr - int (length bs) \<and>
           (0 \<le> lr_N lr \<longrightarrow> int (length bs) \<le> lr_N lr) \<and>
           Reader_weight (lr_R lr') \<le> Reader_weight (lr_R lr) \<and>
           (bs \<noteq> [] \<longrightarrow> Reader_weight (lr_R lr') < Reader_weight (lr_R lr))"
proof (induction "Reader_weight (lr_R lr)" arbitrary: lr buf rule: less_induct)
  case less
  obtain b err l1 where rd: "LimitedReader_Read lr chunk = ((b, err), l1)"
    by (metis prod.exhaust)
  note p = LimitedReader_Read_props [OF rd]
  show ?case
  proof (cases "err = None")
    case False
    have "mem_spool chunk lr buf = Some (buf @ b, l1)"
      using rd False by (subst mem_spool.simps) auto
    moreover have "b \<noteq> [] \<longrightarrow> Reader_weight (lr_R l1) < Reader_weight (lr_R lr)"
    proof
      assume "b \<noteq> []"
      then have "length (Reader_bytes (lr_R l1)) < length (Reader_bytes (lr_R lr))"
        by (simp add: p(1))
      show "Reader_weight (lr_R l1) < Reader_weight (lr_R lr)"
        using rd \<open>b \<noteq> []\<close>
        by (cases "(lr_R lr, chunk)" rule: Reader_Read.cases)
           (auto simp: LimitedReader_Read_def Let_def Reader_weight_def
              split: if_splits prod.splits)
    qed
    ultimately show ?thesis using p by auto
  next
    case True
    have lt: "Reader_weight (lr_R l1) < Reader_weight (lr_R lr)"
      using p(5) assms True by simp
    from less [OF lt, of "buf @ b"] obtain bs lr' where
      r: "mem_spool chunk l1 (buf @ b) = Some ((buf @ b) @ bs, lr')"
        "Reader_bytes (lr_R l1) = bs @ Reader_bytes (lr_R lr')"
        "lr_N lr' = lr_N l1 - int (length bs)"
        "0 \<le> lr_N l1 \<longrightarrow> int (length bs) \<le> lr_N l1"
        "Reader_weight (lr_R lr') \<le> Reader_weight (lr_R l1)"
      by blast
    have "mem_spool chunk lr buf = mem_spool chunk l1 (buf @ b)"
      using rd True by (subst mem_spool.simps) auto
    then have "mem_spool chunk lr buf = Some (buf @ (b @ bs), lr')"
      using r(1) by simp
    moreover have "Reader_bytes (lr_R lr) = (b @ bs) @ Reader_bytes (lr_R lr')"
      using p(1) r(2) by simp
    moreover have "lr_N lr' = lr_N lr - int (length (b @ bs))"
      using p(2) r(3) by simp
    moreover have "0 \<le> lr_N lr \<longrightarrow> int (length (b @ bs)) \<le> lr_N lr"
      using p(2,3) r(4) by auto
    moreover have "Reader_weight (lr_R lr') < Reader_weight (lr_R lr)"
      using lt r(5) by simp
    ultimately show ?thesis by (metis less_imp_le)
  qed
qed

lemma mem_spool_data_event:
  assumes "0 < chunk" and "0 < N" and "int (length bs) \<le> N"
  shows "mem_spool chunk \<lparr>lr_R = Ev bs None # r, lr_N = N\<rparr> buf =
         mem_spool chunk \<lparr>lr_R = r, lr_N = N - int (length bs)\<rparr> (buf @ bs)"
  using assms
proof (induction "length bs" arbitrary: bs N buf rule: less_induct)
  case less
  define k' where "k' = (if int chunk > N then nat N else chunk)"
  have k': "0 < k'" "int k' \<le> N" using less.prems by (auto simp: k'_def)
  show ?case
  proof (cases "length bs \<le> k'")
    case True
    then show ?thesis
      using less.prems
      by (subst mem_spool.simps) (auto simp: LimitedReader_Read_def Let_def k'_def)
  next
    case False
    then have kc: "k' = chunk" "int chunk < N" using less.prems by (auto simp: k'_def split: if_splits)
    have step: "mem_spool chunk \<lparr>lr_R = Ev bs None # r, lr_N = N\<rparr> buf =
        mem_spool chunk \<lparr>lr_R = Ev (drop k' bs) None # r, lr_N = N - int k'\<rparr> (buf @ take k' bs)"
      using False less.prems k'
      by (subst mem_spool.simps) (auto simp: LimitedReader_Read_def Let_def k'_def)
    have "length (drop k' bs) < length bs" using False k' by simp
    from less.hyps [OF this less.prems(1), of "N - int k'" "buf @ take k' bs"]
    have "mem_spool chunk \<lparr>lr_R = Ev (drop k' bs) None # r, lr_N = N - int k'\<rparr> (buf @ take k' bs) =
        mem_spool chunk \<lparr>lr_R = r, lr_N = N - int k' - int (length (drop k' bs))\<rparr>
          ((buf @ take k' bs) @ drop k' bs)"
      using False less.prems kc by auto
    then show ?thesis
      using step False by (simp add: of_nat_diff)
  qed
qed

lemma mem_spool_error_event:
  assumes "0 < chunk" and "0 < N" and "int (length bs) \<le> N"
  shows "mem_spool chunk \<lparr>lr_R = Ev bs (Some e) # r, lr_N = N\<rparr> buf =
         Some (buf @ bs, \<lparr>lr_R = r, lr_N = N - int (length bs)\<rparr>)"
  using assms
proof (induction "length bs" arbitrary: bs N buf rule: less_induct)
  case less
  define k' where "k' = (if int chunk > N then nat N else chunk)"
  have k': "0 < k'" "int k' \<le> N" using less.prems by (auto simp: k'_def)
  show ?case
  proof (cases "length bs \<le> k'")
    case True
    then show ?thesis
      using less.prems
      by (subst mem_spool.simps) (auto simp: LimitedReader_Read_def Let_def k'_def)
  next
    case False
    then have kc: "k' = chunk" "int chunk < N" using less.prems by (auto simp: k'_def split: if_splits)
    have step: "mem_spool chunk \<lparr>lr_R = Ev bs (Some e) # r, lr_N = N\<rparr> buf =
        mem_spool chunk \<lparr>lr_R = Ev (drop k' bs) (Some e) # r, lr_N = N - int k'\<rparr> (buf @ take k' bs)"
      using False less.prems k'
      by (subst mem_spool.simps) (auto simp: LimitedReader_Read_def Let_def k'_def)
    have "length (drop k' bs) < length bs" using False k' by simp
    from less.hyps [OF this less.prems(1), of "N - int k'" "buf @ take k' bs"]
    have "mem_spool chunk \<lparr>lr_R = Ev (drop k' bs) (Some e) # r, lr_N = N - int k'\<rparr> (buf @ take k' bs) =
        Some ((buf @ take k' bs) @ drop k' bs,
              \<lparr>lr_R = r, lr_N = N - int k' - int (length (drop k' bs))\<rparr>)"
      using False less.prems kc by auto
    then show ?thesis
      using step False by (simp add: of_nat_diff)
  qed
qed

lemma mem_spool_until_error:
  assumes "0 < chunk" and "int (length (concat pre @ lst)) < N"
  shows "mem_spool chunk \<lparr>lr_R = map (\<lambda>bs. Ev bs None) pre @ Ev lst (Some e) # rest, lr_N = N\<rparr> buf =
         Some (buf @ concat pre @ lst, \<lparr>lr_R = rest, lr_N = N - int (length (concat pre @ lst))\<rparr>)"
  using assms
proof (induction pre arbitrary: N buf)
  case Nil
  then show ?case using mem_spool_error_event [of chunk N lst e rest buf] by simp
next
  case (Cons b pre)
  have "mem_spool chunk \<lparr>lr_R = Ev b None # (map (\<lambda>bs. Ev bs None) pre @ Ev lst (Some e) # rest),
            lr_N = N\<rparr> buf =
        mem_spool chunk \<lparr>lr_R = map (\<lambda>bs. Ev bs None) pre @ Ev lst (Some e) # rest,
            lr_N = N - int (length b)\<rparr> (buf @ b)"
    using Cons.prems by (intro mem_spool_data_event) auto
  moreover have "mem_spool chunk \<lparr>lr_R = map (\<lambda>bs. Ev bs None) pre @ Ev lst (Some e) # rest,
            lr_N = N - int (length b)\<rparr> (buf @ b) =
      Some ((buf @ b) @ concat pre @ lst,
        \<lparr>lr_R = rest, lr_N = N - int (length b) - int (length (concat pre @ lst))\<rparr>)"
    using Cons.prems by (intro Cons.IH) auto
  ultimately show ?case by simp
qed

text \<open>
  Claim C10.  With a non-empty copy buffer and a part size that is not negative, \<open>memSource.Next\<close>
  returns for every reader, and what it returns is \<open>io.EOF\<close> or a slice, never another
  error.  When the reader delivers some bytes, fewer than \<open>partSize\<close>, and then fails with
  any error \<open>e\<close>, \<open>Next\<close> drops \<open>e\<close>: it returns the slice holding exactly the bytes
  delivered before the failure, or \<open>io.EOF\<close> if there were none, and the reader is left
  after the failure.
\<close>

theorem memSource_Next_discards_errors:
  assumes "0 < chunk" and "0 \<le> ms_partSize p"
  shows "(\<exists>res p' w'. memSource_Next chunk p w = Some (res, p', w') \<and>
            (res = Inl EOF \<or> (\<exists>m n. res = Inr (MemSlice m n)))) \<and>
         (\<forall>pre lst e rest.
            ms_r p = map (\<lambda>bs. Ev bs None) pre @ Ev lst (Some e) # rest \<and>
            int (length (concat pre @ lst)) < ms_partSize p \<longrightarrow>
            (\<exists>w'. memSource_Next chunk p w =
               Some (if concat pre @ lst = [] then Inl EOF
                     else Inr (MemSlice \<lparr>mb_b = Some (concat pre @ lst), mb_r = concat pre @ lst\<rparr>
                                 (int (length (concat pre @ lst)))),
                     p\<lparr>ms_r := rest\<rparr>, w')))"
proof (intro conjI allI impI)
  from mem_spool_total [OF assms(1), of "\<lparr>lr_R = ms_r p, lr_N = ms_partSize p\<rparr>" "[]"]
  obtain bs lr' where "mem_spool chunk \<lparr>lr_R = ms_r p, lr_N = ms_partSize p\<rparr> [] = Some (bs, lr')"
    by auto
  then show "\<exists>res p' w'. memSource_Next chunk p w = Some (res, p', w') \<and>
            (res = Inl EOF \<or> (\<exists>m n. res = Inr (MemSlice m n)))"
    using assms(2) by (auto simp: memSource_Next_def Let_def)
next
  fix pre lst e rest
  assume a: "ms_r p = map (\<lambda>bs. Ev bs None) pre @ Ev lst (Some e) # rest \<and>
            int (length (concat pre @ lst)) < ms_partSize p"
  from mem_spool_until_error [OF assms(1), of pre lst "ms_partSize p" e rest "[]"]
  have "mem_spool chunk \<lparr>lr_R = ms_r p, lr_N = ms_partSize p\<rparr> [] =
      Some (concat pre @ lst,
        \<lparr>lr_R = rest, lr_N = ms_partSize p - int (length (concat pre @ lst))\<rparr>)"
    using a by simp
  then show "\<exists>w'. memSource_Next chunk p w =
               Some (if concat pre @ lst = [] then Inl EOF
                     else Inr (MemSlice \<lparr>mb_b = Some (concat pre @ lst), mb_r = concat pre @ lst\<rparr>
                                 (int (length (concat pre @ lst)))),
                     p\<lparr>ms_r := rest\<rparr>, w')"
    using assms(2) by (auto simp: memSource_Next_def Let_def)
qed

theorem memSource_Next_discards_errors_witness:
  "\<exists>w'. memSource_Next 2 \<lparr>ms_r = [Ev [1, 2, 3] None, Ev [] (Some (Failure ''connection reset'')),
                                   Ev [4] None], ms_partSize = 5\<rparr> world_empty =
     Some (Inr (MemSlice \<lparr>mb_b = Some [1, 2, 3], mb_r = [1, 2, 3]\<rparr> 3),
           \<lparr>ms_r = [Ev [4] None], ms_partSize = 5\<rparr>, w')"
proof -
  define p where "p = \<lparr>ms_r = [Ev [1, 2, 3] None, Ev [] (Some (Failure ''connection reset'')),
                              Ev [4] None], ms_partSize = 5\<rparr>"
  have h1: "(0::nat) < 2" by simp
  have h2: "0 \<le> ms_partSize p" by (simp add: p_def)
  have h3: "ms_r p = map (\<lambda>bs. Ev bs None) [[1, 2, 3]] @
      Ev [] (Some (Failure ''connection reset'')) # [Ev [4] None] \<and>
    int (length (concat [[1, 2, 3 :: byte]] @ [])) < ms_partSize p"
    by (simp add: p_def)
  from memSource_Next_discards_errors [OF h1 h2, of world_empty] h3
  have "\<exists>w'. memSource_Next 2 p world_empty =
               Some (if concat [[1, 2, 3 :: byte]] @ [] = [] then Inl EOF
                     else Inr (MemSlice \<lparr>mb_b = Some (concat [[1, 2, 3]] @ []),
                                          mb_r = concat [[1, 2, 3]] @ []\<rparr>
                                 (int (length (concat [[1, 2, 3 :: byte]] @ [])))),
                     p\<lparr>ms_r := [Ev [4] None]\<rparr>, w')"
    by blast
  then show ?thesis by (simp add: p_def)
qed

subsection \<open>Completeness of the three sources\<close>

lemma Reader_benign_Nil [simp]: "Reader_benign []"
  by (simp add: Reader_benign_def)

lemma Reader_benign_tail: "Reader_benign (ev # r) \<Longrightarrow> Reader_benign r"
  by (cases r) (auto simp: Reader_benign_def)

lemma Reader_benign_head: "Reader_benign (Ev b e # r) \<Longrightarrow> Reader_benign (Ev b' e # r)"
  by (cases r) (auto simp: Reader_benign_def)

lemma Reader_benign_err: "Reader_benign (Ev b (Some x) # r) \<Longrightarrow> r = [] \<and> errors_Is x EOF"
  by (cases r) (auto simp: Reader_benign_def)

lemma Reader_bytes_simps [simp]:
  "Reader_bytes [] = []" "Reader_bytes (Ev b e # r) = b @ Reader_bytes r"
  by (simp_all add: Reader_bytes_def)

lemma Reader_weight_simps [simp]:
  "Reader_weight [] = 0" "Reader_weight (Ev b e # r) = length b + 1 + Reader_weight r"
  by (simp_all add: Reader_weight_def)

lemma mem_spool_benign_aux:
  assumes "0 < chunk" and "0 \<le> lr_N lr" and "Reader_benign (lr_R lr)"
  shows "\<exists>bs lr'. mem_spool chunk lr buf = Some (buf @ bs, lr') \<and>
           Reader_bytes (lr_R lr) = bs @ Reader_bytes (lr_R lr') \<and>
           int (length bs) \<le> lr_N lr \<and> Reader_benign (lr_R lr') \<and>
           (int (length bs) = lr_N lr \<or> Reader_bytes (lr_R lr') = [])"
  using assms(2,3)
proof (induction "Reader_weight (lr_R lr)" arbitrary: lr buf rule: less_induct)
  case less
  show ?case
  proof (cases "lr_N lr \<le> 0")
    case True
    then have "mem_spool chunk lr buf = Some (buf @ [], lr)"
      by (subst mem_spool.simps) (simp add: LimitedReader_Read_def)
    then show ?thesis using True less.prems by force
  next
    case False
    define k' where "k' = (if int chunk > lr_N lr then nat (lr_N lr) else chunk)"
    have k': "0 < k'" "int k' \<le> lr_N lr" using False assms(1) by (auto simp: k'_def)
    show ?thesis
    proof (cases "lr_R lr")
      case Nil
      then have "mem_spool chunk lr buf = Some (buf @ [], \<lparr>lr_R = [], lr_N = lr_N lr\<rparr>)"
        using False by (subst mem_spool.simps) (simp add: LimitedReader_Read_def)
      then show ?thesis using Nil less.prems by force
    next
      case (Cons ev r1)
      obtain b e where ev: "ev = Ev b e" by (cases ev)
      show ?thesis
      proof (cases "length b \<le> k'")
        case fits: True
        show ?thesis
        proof (cases e)
          case None
          define l1 where "l1 = \<lparr>lr_R = r1, lr_N = lr_N lr - int (length b)\<rparr>"
          have step: "mem_spool chunk lr buf = mem_spool chunk l1 (buf @ b)"
            using False fits Cons ev None
            by (subst mem_spool.simps)
               (simp add: LimitedReader_Read_def Let_def k'_def [symmetric] l1_def)
          have "Reader_weight (lr_R l1) < Reader_weight (lr_R lr)"
            by (simp add: l1_def Cons ev)
          moreover have "0 \<le> lr_N l1" using fits k' by (simp add: l1_def)
          moreover have "Reader_benign (lr_R l1)"
            using less.prems(2) Reader_benign_tail by (simp add: l1_def Cons)
          ultimately obtain bs lr' where
            r: "mem_spool chunk l1 (buf @ b) = Some ((buf @ b) @ bs, lr')"
              "Reader_bytes (lr_R l1) = bs @ Reader_bytes (lr_R lr')"
              "int (length bs) \<le> lr_N l1" "Reader_benign (lr_R lr')"
              "int (length bs) = lr_N l1 \<or> Reader_bytes (lr_R lr') = []"
            using less.hyps [of l1 "buf @ b"] by blast
          have "mem_spool chunk lr buf = Some (buf @ (b @ bs), lr')"
            using step r(1) by simp
          moreover have "Reader_bytes (lr_R lr) = (b @ bs) @ Reader_bytes (lr_R lr')"
            using r(2) by (simp add: Cons ev l1_def)
          moreover have "int (length (b @ bs)) \<le> lr_N lr"
            using r(3) by (simp add: l1_def)
          moreover have "int (length (b @ bs)) = lr_N lr \<or> Reader_bytes (lr_R lr') = []"
            using r(5) by (auto simp: l1_def)
          ultimately show ?thesis using r(4) by blast
        next
          case (Some x)
          have r1: "r1 = []"
            using less.prems(2) Reader_benign_err by (simp add: Cons ev Some)
          have "mem_spool chunk lr buf =
              Some (buf @ b, \<lparr>lr_R = r1, lr_N = lr_N lr - int (length b)\<rparr>)"
            using False fits Cons ev Some
            by (subst mem_spool.simps)
               (simp add: LimitedReader_Read_def Let_def k'_def [symmetric])
          moreover have "int (length b) \<le> lr_N lr" using fits k' by simp
          ultimately show ?thesis
            using r1 by (force simp: Cons ev)
        qed
      next
        case nofit: False
        define l1 where "l1 = \<lparr>lr_R = Ev (drop k' b) e # r1, lr_N = lr_N lr - int k'\<rparr>"
        have step: "mem_spool chunk lr buf = mem_spool chunk l1 (buf @ take k' b)"
          using False nofit Cons ev k'
          by (subst mem_spool.simps)
             (simp add: LimitedReader_Read_def Let_def k'_def [symmetric] l1_def)
        have "Reader_weight (lr_R l1) < Reader_weight (lr_R lr)"
          using k' nofit by (simp add: l1_def Cons ev)
        moreover have "0 \<le> lr_N l1" using k' by (simp add: l1_def)
        moreover have "Reader_benign (lr_R l1)"
          using less.prems(2) Reader_benign_head by (simp add: l1_def Cons ev)
        ultimately obtain bs lr' where
          r: "mem_spool chunk l1 (buf @ take k' b) = Some ((buf @ take k' b) @ bs, lr')"
            "Reader_bytes (lr_R l1) = bs @ Reader_bytes (lr_R lr')"
            "int (length bs) \<le> lr_N l1" "Reader_benign (lr_R lr')"
            "int (length bs) = lr_N l1 \<or> Reader_bytes (lr_R lr') = []"
          using less.hyps [of l1 "buf @ take k' b"] by blast
        have "mem_spool chunk lr buf = Some (buf @ (take k' b @ bs), lr')"
          using step r(1) by simp
        moreover have "Reader_bytes (lr_R lr) = (take k' b @ bs) @ Reader_bytes (lr_R lr')"
        proof -
          have "Reader_bytes (lr_R lr) = take k' b @ Reader_bytes (lr_R l1)"
            by (simp add: Cons ev l1_def)
          then show ?thesis using r(2) by simp
        qed
        moreover have "int (length (take k' b @ bs)) \<le> lr_N lr"
          using r(3) nofit by (simp add: l1_def)
        moreover have "int (length (take k' b @ bs)) = lr_N lr \<or> Reader_bytes (lr_R lr') = []"
          using r(5) nofit by (auto simp: l1_def)
        ultimately show ?thesis using r(4) by blast
      qed
    qed
  qed
qed

lemma take_drop_of_split:
  assumes "xs = bs @ rest" and "length bs \<le> n" and "length bs = n \<or> rest = []"
  shows "bs = take n xs" and "rest = drop n xs"
  using assms by auto

lemma file_append_simps [simp]:
  "w_faults (file_append w fh bs) = w_faults w"
  "length (w_files (file_append w fh bs)) = length (w_files w)"
  "w_pool_idle (file_append w fh bs) = w_pool_idle w"
  "w_pool_gets (file_append w fh bs) = w_pool_gets w"
  "w_pool_puts (file_append w fh bs) = w_pool_puts w"
  by (simp_all add: file_append_def)

lemma file_append_at:
  "fh < length (w_files w) \<Longrightarrow>
     w_files (file_append w fh bs) ! fh =
       (w_files w ! fh)\<lparr>tf_content := tf_content (w_files w ! fh) @ bs\<rparr>"
  by (simp add: file_append_def)

lemma file_append_Nil [simp]: "file_append w fh [] = w"
  by (simp add: file_append_def)

lemma file_append_append:
  "fh < length (w_files w) \<Longrightarrow>
     file_append (file_append w fh a) fh b = file_append w fh (a @ b)"
  by (simp add: file_append_def)

lemma World_healthy_file_append [simp]:
  "World_healthy (file_append w fh bs) = World_healthy w"
  by (simp add: World_healthy_def)

lemma File_Write_healthy:
  assumes "World_healthy w" and "fh < length (w_files w)" and "\<not> tf_closed (w_files w ! fh)"
  shows "File_Write w fh bs = (None, file_append w fh bs)"
  using assms by (simp add: File_Write_def World_healthy_def file_append_def)

lemma tempf_spool_benign_aux:
  assumes "0 < chunk" and "0 \<le> lr_N lr" and "Reader_benign (lr_R lr)"
    and "World_healthy w" and "fh < length (w_files w)" and "\<not> tf_closed (w_files w ! fh)"
  shows "\<exists>bs lr'. tempf_spool chunk lr fh sz w =
             Some (None, sz + int (length bs), lr', file_append w fh bs) \<and>
           Reader_bytes (lr_R lr) = bs @ Reader_bytes (lr_R lr') \<and>
           int (length bs) \<le> lr_N lr \<and> Reader_benign (lr_R lr') \<and>
           (int (length bs) = lr_N lr \<or> Reader_bytes (lr_R lr') = [])"
  using assms(2-)
proof (induction "Reader_weight (lr_R lr)" arbitrary: lr sz w rule: less_induct)
  case less
  note wr = File_Write_healthy [OF less.prems(3,4,5)]
  have open_after: "World_healthy (file_append w fh x)" "fh < length (w_files (file_append w fh x))"
    "\<not> tf_closed (w_files (file_append w fh x) ! fh)" for x
    using less.prems(3,4,5) by (simp_all add: file_append_at)
  show ?case
  proof (cases "lr_N lr \<le> 0")
    case True
    then have "tempf_spool chunk lr fh sz w = Some (None, sz + int (length ([]::byte list)), lr, file_append w fh [])"
      by (subst tempf_spool.simps) (simp add: LimitedReader_Read_def)
    then show ?thesis using True less.prems by force
  next
    case False
    define k' where "k' = (if int chunk > lr_N lr then nat (lr_N lr) else chunk)"
    have k': "0 < k'" "int k' \<le> lr_N lr" using False assms(1) by (auto simp: k'_def)
    show ?thesis
    proof (cases "lr_R lr")
      case Nil
      then have "tempf_spool chunk lr fh sz w =
          Some (None, sz + int (length ([]::byte list)), \<lparr>lr_R = [], lr_N = lr_N lr\<rparr>, file_append w fh [])"
        using False by (subst tempf_spool.simps) (simp add: LimitedReader_Read_def)
      then show ?thesis using Nil less.prems by force
    next
      case (Cons ev r1)
      obtain b e where ev: "ev = Ev b e" by (cases ev)
      show ?thesis
      proof (cases "length b \<le> k'")
        case fits: True
        define l1 where "l1 = \<lparr>lr_R = r1, lr_N = lr_N lr - int (length b)\<rparr>"
        have wl: "Reader_weight (lr_R l1) < Reader_weight (lr_R lr)"
          by (simp add: l1_def Cons ev)
        have nl: "0 \<le> lr_N l1" using fits k' by (simp add: l1_def)
        have bl: "Reader_benign (lr_R l1)"
          using less.prems(2) Reader_benign_tail by (simp add: l1_def Cons)
        have stop: "tempf_spool chunk lr fh sz w = Some (None, sz, l1, w)"
          if "b = []" "e = Some x" for x
        proof -
          have "errors_Is x EOF"
            using less.prems(2) Reader_benign_err that by (simp add: Cons ev)
          then show ?thesis
            using False fits Cons ev that
            by (subst tempf_spool.simps)
               (simp add: LimitedReader_Read_def Let_def k'_def [symmetric] l1_def)
        qed
        have cont: "tempf_spool chunk lr fh sz w =
            tempf_spool chunk l1 fh (sz + int (length b)) (file_append w fh b)"
          if "b \<noteq> [] \<or> e = None"
          using False fits Cons ev that wr
          by (subst tempf_spool.simps)
             (auto simp: LimitedReader_Read_def Let_def k'_def [symmetric] l1_def)
        show ?thesis
        proof (cases "b \<noteq> [] \<or> e = None")
          case True
          from less.hyps [OF wl nl bl open_after, of "sz + int (length b)" b]
          obtain bs lr' where
            r: "tempf_spool chunk l1 fh (sz + int (length b)) (file_append w fh b) =
                  Some (None, sz + int (length b) + int (length bs), lr',
                        file_append (file_append w fh b) fh bs)"
              "Reader_bytes (lr_R l1) = bs @ Reader_bytes (lr_R lr')"
              "int (length bs) \<le> lr_N l1" "Reader_benign (lr_R lr')"
              "int (length bs) = lr_N l1 \<or> Reader_bytes (lr_R lr') = []"
            by blast
          have "tempf_spool chunk lr fh sz w =
              Some (None, sz + int (length (b @ bs)), lr', file_append w fh (b @ bs))"
            using cont [OF True] r(1) less.prems(4) by (simp add: file_append_append)
          moreover have "Reader_bytes (lr_R lr) = (b @ bs) @ Reader_bytes (lr_R lr')"
            using r(2) by (simp add: Cons ev l1_def)
          moreover have "int (length (b @ bs)) \<le> lr_N lr"
            using r(3) by (simp add: l1_def)
          moreover have "int (length (b @ bs)) = lr_N lr \<or> Reader_bytes (lr_R lr') = []"
            using r(5) by (auto simp: l1_def)
          ultimately show ?thesis using r(4) by blast
        next
          case False
          then obtain x where x: "b = []" "e = Some x" by auto
          have "r1 = []"
            using less.prems(2) Reader_benign_err x by (simp add: Cons ev)
          then show ?thesis
            using stop [OF x] x nl bl by (force simp: Cons ev l1_def)
        qed
      next
        case nofit: False
        define l1 where "l1 = \<lparr>lr_R = Ev (drop k' b) e # r1, lr_N = lr_N lr - int k'\<rparr>"
        have tne: "take k' b \<noteq> []" using k' nofit by auto
        have step: "tempf_spool chunk lr fh sz w =
            tempf_spool chunk l1 fh (sz + int k') (file_append w fh (take k' b))"
          using False nofit Cons ev k' wr tne
          by (subst tempf_spool.simps)
             (auto simp: LimitedReader_Read_def Let_def k'_def [symmetric] l1_def min_def)
        have wl: "Reader_weight (lr_R l1) < Reader_weight (lr_R lr)"
          using k' nofit by (simp add: l1_def Cons ev)
        have nl: "0 \<le> lr_N l1" using k' by (simp add: l1_def)
        have bl: "Reader_benign (lr_R l1)"
          using less.prems(2) Reader_benign_head by (simp add: l1_def Cons ev)
        from less.hyps [OF wl nl bl open_after, of "sz + int k'" "take k' b"]
        obtain bs lr' where
          r: "tempf_spool chunk l1 fh (sz + int k') (file_append w fh (take k' b)) =
                Some (None, sz + int k' + int (length bs), lr',
                      file_append (file_append w fh (take k' b)) fh bs)"
            "Reader_bytes (lr_R l1) = bs @ Reader_bytes (lr_R lr')"
            "int (length bs) \<le> lr_N l1" "Reader_benign (lr_R lr')"
            "int (length bs) = lr_N l1 \<or> Reader_bytes (lr_R lr') = []"
          by blast
        have lt: "length (take k' b) = k'" using nofit by simp
        have "tempf_spool chunk lr fh sz w =
            Some (None, sz + int (length (take k' b @ bs)), lr', file_append w fh (take k' b @ bs))"
          using step r(1) less.prems(4) lt by (simp add: file_append_append)
        moreover have "Reader_bytes (lr_R lr) = (take k' b @ bs) @ Reader_bytes (lr_R lr')"
        proof -
          have "Reader_bytes (lr_R lr) = take k' b @ Reader_bytes (lr_R l1)"
            by (simp add: Cons ev l1_def)
          then show ?thesis using r(2) by simp
        qed
        moreover have "int (length (take k' b @ bs)) \<le> lr_N lr"
          using r(3) nofit by (simp add: l1_def)
        moreover have "int (length (take k' b @ bs)) = lr_N lr \<or> Reader_bytes (lr_R lr') = []"
          using r(5) nofit by (auto simp: l1_def)
        ultimately show ?thesis using r(4) by blast
      qed
    qed
  qed
qed

lemma take_min_length [simp]: "take (min (length xs) n) xs = take n xs"
  by (simp add: min_def)

lemma int64_id: "- (2 ^ 63) \<le> x \<Longrightarrow> x < 2 ^ 63 \<Longrightarrow> int64 x = x"
  by (simp add: int64_def)

lemma World_prefix_refl [simp]: "World_prefix w w"
  by (simp add: World_prefix_def)

lemma World_prefix_trans:
  assumes "World_prefix a b" and "World_prefix b c"
  shows "World_prefix a c"
proof -
  have l: "length (w_files a) \<le> length (w_files b)" "length (w_files b) \<le> length (w_files c)"
    using assms by (simp_all add: World_prefix_def)
  have "take (length (w_files a)) (w_files c) =
      take (length (w_files a)) (take (length (w_files b)) (w_files c))"
    using l by (simp add: min_def)
  also have "\<dots> = w_files a"
    using assms by (simp add: World_prefix_def)
  finally show ?thesis using l by (simp add: World_prefix_def)
qed

lemma SourceReader_bytes_prefix:
  assumes "World_prefix w w'" and "SourceReader_in w sr"
  shows "SourceReader_bytes w' sr = SourceReader_bytes w sr" and "SourceReader_in w' sr"
proof -
  have "w_files w' ! fh = w_files w ! fh" if "fh < length (w_files w)" for fh
    using assms(1) that unfolding World_prefix_def by (metis nth_take)
  then show "SourceReader_bytes w' sr = SourceReader_bytes w sr"
    using assms by (cases sr) (auto simp: File_ReadAll_def World_prefix_def)
  show "SourceReader_in w' sr"
    using assms by (cases sr) (auto simp: World_prefix_def)
qed

lemma readerAtSource_Next_step:
  assumes "Source_wf (ReaderAtSource p)"
  shows "\<exists>res p'. readerAtSource_Next p = (res, p') \<and> Source_wf (ReaderAtSource p') \<and>
      ras_partSize p' = ras_partSize p \<and>
      Source_pending (ReaderAtSource p') =
        drop (nat (ras_partSize p)) (Source_pending (ReaderAtSource p)) \<and>
      (if Source_pending (ReaderAtSource p) = [] then res = Inl EOF
       else (\<exists>sr. res = Inr sr \<and> SourceReader_in w sr \<and>
               SourceReader_bytes w sr =
                 Inr (take (nat (ras_partSize p)) (Source_pending (ReaderAtSource p)))))"
proof (cases "ras_offset p \<ge> ras_limit p")
  case True
  then have "Source_pending (ReaderAtSource p) = []" using assms by simp
  then show ?thesis using True assms by (simp add: readerAtSource_Next_def)
next
  case False
  have wf: "ras_limit p = int (length (ras_r p))" "0 \<le> ras_offset p" "0 < ras_partSize p"
    "ras_limit p + ras_partSize p < 2 ^ 63"
    using assms by simp_all
  have ne: "Source_pending (ReaderAtSource p) \<noteq> []" using False wf by simp
  have i1: "int64 (ras_offset p + ras_partSize p) = ras_offset p + ras_partSize p"
    using False wf by (intro int64_id) auto
  have i2: "int64 (ras_limit p - ras_offset p) = ras_limit p - ras_offset p"
    using False wf by (intro int64_id) auto
  define sz where "sz = (if ras_offset p + ras_partSize p > ras_limit p
                    then ras_limit p - ras_offset p else ras_partSize p)"
  have sz: "0 < sz" "sz \<le> ras_partSize p" "ras_offset p + sz \<le> ras_limit p"
    using False wf by (auto simp: sz_def)
  have i3: "int64 (ras_offset p + sz) = ras_offset p + sz"
    using sz wf by (intro int64_id) auto
  have nx: "readerAtSource_Next p =
      (Inr (ReaderAtSlice (ras_r p) (ras_offset p) sz), p\<lparr>ras_offset := ras_offset p + sz\<rparr>)"
    using False i3 by (auto simp: readerAtSource_Next_def i1 i2 sz_def Let_def)
  have tk: "take (nat sz) (drop (nat (ras_offset p)) (ras_r p)) =
      take (nat (ras_partSize p)) (drop (nat (ras_offset p)) (ras_r p))"
    using wf False by (auto simp: sz_def)
  have dr: "drop (nat (ras_offset p + sz)) (ras_r p) =
      drop (nat (ras_partSize p)) (drop (nat (ras_offset p)) (ras_r p))"
  proof (cases "ras_offset p + ras_partSize p > ras_limit p")
    case True
    then show ?thesis using wf False by (simp add: sz_def)
  next
    case False
    then have "nat (ras_offset p + sz) = nat (ras_partSize p) + nat (ras_offset p)"
      using wf by (simp add: sz_def nat_add_distrib)
    then show ?thesis by simp
  qed
  show ?thesis
    using nx ne wf sz tk dr by simp
qed

lemma memSource_Next_step:
  assumes "Source_wf (MemSource p)" and "0 < chunk"
  shows "\<exists>res p' w'. memSource_Next chunk p w = Some (res, p', w') \<and>
      Source_wf (MemSource p') \<and> ms_partSize p' = ms_partSize p \<and>
      w_files w' = w_files w \<and> w_faults w' = w_faults w \<and>
      Source_pending (MemSource p') = drop (nat (ms_partSize p)) (Source_pending (MemSource p)) \<and>
      (if Source_pending (MemSource p) = [] then res = Inl EOF
       else (\<exists>sr. res = Inr sr \<and> SourceReader_in w' sr \<and>
               SourceReader_bytes w' sr =
                 Inr (take (nat (ms_partSize p)) (Source_pending (MemSource p)))))"
proof -
  have b: "Reader_benign (ms_r p)" and ps: "0 < ms_partSize p" using assms(1) by simp_all
  from mem_spool_benign_aux [OF assms(2), of "\<lparr>lr_R = ms_r p, lr_N = ms_partSize p\<rparr>" "[]"]
  obtain bs lr' where
    r: "mem_spool chunk \<lparr>lr_R = ms_r p, lr_N = ms_partSize p\<rparr> [] = Some (bs, lr')"
      "Reader_bytes (ms_r p) = bs @ Reader_bytes (lr_R lr')"
      "int (length bs) \<le> ms_partSize p" "Reader_benign (lr_R lr')"
      "int (length bs) = ms_partSize p \<or> Reader_bytes (lr_R lr') = []"
    using b ps by auto
  have "length bs \<le> nat (ms_partSize p)"
    "length bs = nat (ms_partSize p) \<or> Reader_bytes (lr_R lr') = []"
    using r(3,5) by auto
  from take_drop_of_split [OF r(2) this]
  have td: "bs = take (nat (ms_partSize p)) (Reader_bytes (ms_r p))"
    "Reader_bytes (lr_R lr') = drop (nat (ms_partSize p)) (Reader_bytes (ms_r p))" .
  have e: "bs = [] \<longleftrightarrow> Reader_bytes (ms_r p) = []"
    using td(1) ps by auto
  show ?thesis
    using r(1,4) ps td e
    by (auto simp: memSource_Next_def Let_def BufferPool_Get_def BufferPool_Put_def)
qed

lemma tempf_cleanup_props:
  assumes "fh < length (w_files w)"
  shows "w_faults (tempf_cleanup w fh) = w_faults w"
    and "length (w_files (tempf_cleanup w fh)) = length (w_files w)"
    and "take fh (w_files (tempf_cleanup w fh)) = take fh (w_files w)"
  using assms
  by (simp_all add: tempf_cleanup_def File_Close_def os_Remove_def Let_def)

lemma tempfSource_Next_step:
  assumes "Source_wf (TempfSource p)" and "0 < chunk" and "World_healthy w"
  shows "\<exists>res p' w'. tempfSource_Next chunk p w = Some (res, p', w') \<and>
      Source_wf (TempfSource p') \<and> tfs_partSize p' = tfs_partSize p \<and>
      World_healthy w' \<and> World_prefix w w' \<and>
      Source_pending (TempfSource p') = drop (nat (tfs_partSize p)) (Source_pending (TempfSource p)) \<and>
      (if Source_pending (TempfSource p) = [] then res = Inl EOF
       else (\<exists>sr. res = Inr sr \<and> SourceReader_in w' sr \<and>
               SourceReader_bytes w' sr =
                 Inr (take (nat (tfs_partSize p)) (Source_pending (TempfSource p)))))"
proof -
  have b: "Reader_benign (tfs_r p)" and ps: "0 < tfs_partSize p" using assms(1) by simp_all
  define fh where "fh = length (w_files w)"
  define w1 where "w1 = w\<lparr>w_files := w_files w @
               [\<lparr>tf_content = [], tf_closed = False, tf_removed = False,
                 tf_close_calls = 0, tf_remove_calls = 0\<rparr>]\<rparr>"
  have ct: "os_CreateTemp w = (Inr fh, w1)"
    using assms(3) by (simp add: os_CreateTemp_def World_healthy_def fh_def w1_def)
  have w1: "World_healthy w1" "fh < length (w_files w1)" "\<not> tf_closed (w_files w1 ! fh)"
    "tf_content (w_files w1 ! fh) = []" "take fh (w_files w1) = w_files w"
    using assms(3) by (simp_all add: w1_def fh_def World_healthy_def)
  from tempf_spool_benign_aux [OF assms(2) _ _ w1(1,2,3),
      of "\<lparr>lr_R = tfs_r p, lr_N = tfs_partSize p\<rparr>" 0]
  obtain bs lr' where
    r: "tempf_spool chunk \<lparr>lr_R = tfs_r p, lr_N = tfs_partSize p\<rparr> fh 0 w1 =
          Some (None, int (length bs), lr', file_append w1 fh bs)"
      "Reader_bytes (tfs_r p) = bs @ Reader_bytes (lr_R lr')"
      "int (length bs) \<le> tfs_partSize p" "Reader_benign (lr_R lr')"
      "int (length bs) = tfs_partSize p \<or> Reader_bytes (lr_R lr') = []"
    using b ps by auto
  have "length bs \<le> nat (tfs_partSize p)"
    "length bs = nat (tfs_partSize p) \<or> Reader_bytes (lr_R lr') = []"
    using r(3,5) by auto
  from take_drop_of_split [OF r(2) this]
  have td: "bs = take (nat (tfs_partSize p)) (Reader_bytes (tfs_r p))"
    "Reader_bytes (lr_R lr') = drop (nat (tfs_partSize p)) (Reader_bytes (tfs_r p))" .
  have e: "bs = [] \<longleftrightarrow> Reader_bytes (tfs_r p) = []"
    using td(1) ps by auto
  define w2 where "w2 = file_append w1 fh bs"
  have w2: "World_healthy w2" "fh < length (w_files w2)" "\<not> tf_closed (w_files w2 ! fh)"
    "tf_content (w_files w2 ! fh) = bs" "take fh (w_files w2) = w_files w"
    using w1 by (simp_all add: w2_def file_append_at) (simp add: file_append_def)
  have seek: "File_Seek w2 fh = None"
    using w2 by (simp add: File_Seek_def World_healthy_def)
  have rd: "File_ReadAll w2 fh = Inr bs"
    using w2 by (simp add: File_ReadAll_def)
  have cl: "World_healthy (tempf_cleanup w2 fh)" "World_prefix w (tempf_cleanup w2 fh)"
    using tempf_cleanup_props [OF w2(2)] w2(1,2,5)
    by (simp_all add: World_healthy_def World_prefix_def fh_def)
  have pf: "World_prefix w w2"
    using w2(2,5) by (simp add: World_prefix_def fh_def)
  show ?thesis
  proof (cases "bs = []")
    case True
    then have "tempfSource_Next chunk p w =
        Some (Inl EOF, p\<lparr>tfs_r := lr_R lr'\<rparr>, tempf_cleanup w2 fh)"
      using ct r(1) by (simp add: tempfSource_Next_def w2_def)
    then show ?thesis
      using True e r(4) ps td(2) cl by simp
  next
    case False
    then have "tempfSource_Next chunk p w =
        Some (Inr (TempfSlice fh (int (length bs))), p\<lparr>tfs_r := lr_R lr'\<rparr>, w2)"
      using ct r(1) seek by (simp add: tempfSource_Next_def w2_def [symmetric])
    then show ?thesis
      using False e r(4) ps td w2(1,2) pf rd by simp
  qed
qed

lemma Source_Next_step:
  assumes "Source_wf src" and "World_healthy w" and "0 < chunk"
  shows "\<exists>res src' w'. Source_Next chunk src w = Some (res, src', w') \<and>
      Source_wf src' \<and> World_healthy w' \<and> World_prefix w w' \<and>
      Source_partSize src' = Source_partSize src \<and>
      Source_pending src' = drop (nat (Source_partSize src)) (Source_pending src) \<and>
      (if Source_pending src = [] then res = Inl EOF
       else (\<exists>sr. res = Inr sr \<and> SourceReader_in w' sr \<and>
               SourceReader_bytes w' sr =
                 Inr (take (nat (Source_partSize src)) (Source_pending src))))"
proof (cases src)
  case (ReaderAtSource p)
  from readerAtSource_Next_step [OF assms(1) [unfolded ReaderAtSource], of w]
  obtain res p' where
    "readerAtSource_Next p = (res, p')" "Source_wf (ReaderAtSource p')"
    "ras_partSize p' = ras_partSize p"
    "Source_pending (ReaderAtSource p') =
        drop (nat (ras_partSize p)) (Source_pending (ReaderAtSource p))"
    "if Source_pending (ReaderAtSource p) = [] then res = Inl EOF
       else (\<exists>sr. res = Inr sr \<and> SourceReader_in w sr \<and>
               SourceReader_bytes w sr =
                 Inr (take (nat (ras_partSize p)) (Source_pending (ReaderAtSource p))))"
    by blast
  then show ?thesis
    using assms(2) unfolding ReaderAtSource
    by (intro exI [of _ res] exI [of _ "ReaderAtSource p'"] exI [of _ w])
       (auto split: if_splits)
next
  case (TempfSource p)
  from tempfSource_Next_step [OF assms(1) [unfolded TempfSource] assms(3,2)]
  obtain res p' w' where
    "tempfSource_Next chunk p w = Some (res, p', w')"
    "Source_wf (TempfSource p')" "tfs_partSize p' = tfs_partSize p"
    "World_healthy w'" "World_prefix w w'"
    "Source_pending (TempfSource p') = drop (nat (tfs_partSize p)) (Source_pending (TempfSource p))"
    "if Source_pending (TempfSource p) = [] then res = Inl EOF
       else (\<exists>sr. res = Inr sr \<and> SourceReader_in w' sr \<and>
               SourceReader_bytes w' sr =
                 Inr (take (nat (tfs_partSize p)) (Source_pending (TempfSource p))))"
    by blast
  then show ?thesis
    unfolding TempfSource
    by (intro exI [of _ res] exI [of _ "TempfSource p'"] exI [of _ w'])
       (auto split: if_splits)
next
  case (MemSource p)
  from memSource_Next_step [OF assms(1) [unfolded MemSource] assms(3), of w]
  obtain res p' w' where
    "memSource_Next chunk p w = Some (res, p', w')"
    "Source_wf (MemSource p')" "ms_partSize p' = ms_partSize p"
    "w_files w' = w_files w" "w_faults w' = w_faults w"
    "Source_pending (MemSource p') = drop (nat (ms_partSize p)) (Source_pending (MemSource p))"
    "if Source_pending (MemSource p) = [] then res = Inl EOF
       else (\<exists>sr. res = Inr sr \<and> SourceReader_in w' sr \<and>
               SourceReader_bytes w' sr =
                 Inr (take (nat (ms_partSize p)) (Source_pending (MemSource p))))"
    by blast
  then show ?thesis
    using assms(2) unfolding MemSource
    by (intro exI [of _ res] exI [of _ "MemSource p'"] exI [of _ w'])
       (auto simp: World_healthy_def World_prefix_def split: if_splits)
qed

lemma Source_wf_partSize: "Source_wf src \<Longrightarrow> 0 < Source_partSize src"
  by (cases src) simp_all

lemma Source_drain_wf:
  assumes "Source_wf src" and "World_healthy w" and "0 < chunk"
  shows "\<exists>srs src' w'. Source_drain chunk src w = Some (Inr srs, src', w') \<and>
           SourceReaders_bytes w' srs = Inr (Source_pending src) \<and>
           World_prefix w w' \<and> (Source_pending src = [] \<longrightarrow> srs = [])"
  using assms(1,2)
proof (induction "length (Source_pending src)" arbitrary: src w rule: less_induct)
  case less
  define k where "k = nat (Source_partSize src)"
  have k: "0 < k" using Source_wf_partSize [OF less.prems(1)] by (simp add: k_def)
  from Source_Next_step [OF less.prems assms(3)] obtain res src1 w1 where
    n: "Source_Next chunk src w = Some (res, src1, w1)" "Source_wf src1" "World_healthy w1"
      "World_prefix w w1" "Source_pending src1 = drop k (Source_pending src)"
      "if Source_pending src = [] then res = Inl EOF
       else (\<exists>sr. res = Inr sr \<and> SourceReader_in w1 sr \<and>
               SourceReader_bytes w1 sr = Inr (take k (Source_pending src)))"
    unfolding k_def by blast
  show ?case
  proof (cases "Source_pending src = []")
    case True
    then have "res = Inl EOF" using n(6) by simp
    then have "Source_drain chunk src w = Some (Inr [], src1, w1)"
      using n(1) by (subst Source_drain.simps) simp
    then show ?thesis using True n(4) by simp
  next
    case False
    then obtain sr where sr: "res = Inr sr" "SourceReader_in w1 sr"
      "SourceReader_bytes w1 sr = Inr (take k (Source_pending src))"
      using n(6) by auto
    have "length (Source_pending src1) < length (Source_pending src)"
      using False k by (simp add: n(5))
    from less.hyps [OF this n(2,3)] obtain srs src' w' where
      r: "Source_drain chunk src1 w1 = Some (Inr srs, src', w')"
        "SourceReaders_bytes w' srs = Inr (Source_pending src1)" "World_prefix w1 w'"
      by blast
    have d: "Source_drain chunk src w = Some (Inr (sr # srs), src', w')"
      using n(1) sr(1) r(1) by (subst Source_drain.simps) simp
    have "SourceReader_bytes w' sr = Inr (take k (Source_pending src))"
      using SourceReader_bytes_prefix(1) [OF r(3) sr(2)] sr(3) by simp
    then have "SourceReaders_bytes w' (sr # srs) = Inr (Source_pending src)"
      using r(2) by (simp add: n(5))
    then show ?thesis
      using d False World_prefix_trans [OF n(4) r(3)] by simp
  qed
qed

lemma Source_wf_of_Input:
  assumes "0 < partSize" and "Input_ok input partSize"
    and "src = TempfileSource input partSize \<or> src = MemorySource input partSize"
  shows "Source_wf src" and "Source_pending src = Input_bytes input"
    and "Source_partSize src = partSize"
  using assms by (cases input; auto simp: TempfileSource_def MemorySource_def)+

text \<open>
  Claim C5.  For a well-behaved input, a working file system, a positive part size and
  a non-empty copy buffer, each of the three sources (the random-access view that both
  constructors build over a random-access input, the temp-file spool and the memory
  spool) hands out slices until it returns \<open>io.EOF\<close>, and the bytes of the slices, in
  order, are the bytes of the input.  On an empty input the first \<open>Next\<close> returns
  \<open>io.EOF\<close>.  The result of \<open>Next\<close> is an error or a slice, never both.
\<close>

theorem PartSource_complete:
  assumes "0 < partSize" and "0 < chunk" and "World_healthy w" and "Input_ok input partSize"
    and "src = TempfileSource input partSize \<or> src = MemorySource input partSize"
  shows "\<exists>srs src' w'. Source_drain chunk src w = Some (Inr srs, src', w') \<and>
           SourceReaders_bytes w' srs = Inr (Input_bytes input) \<and>
           (Input_bytes input = [] \<longrightarrow>
              srs = [] \<and> (\<exists>src1 w1. Source_Next chunk src w = Some (Inl EOF, src1, w1)))"
proof -
  note wf = Source_wf_of_Input [OF assms(1,4,5)]
  from Source_drain_wf [OF wf(1) assms(3,2)] obtain srs src' w' where
    d: "Source_drain chunk src w = Some (Inr srs, src', w')"
      "SourceReaders_bytes w' srs = Inr (Source_pending src)"
      "Source_pending src = [] \<longrightarrow> srs = []"
    by blast
  from Source_Next_step [OF wf(1) assms(3,2)] obtain res src1 w1 where
    n: "Source_Next chunk src w = Some (res, src1, w1)"
      "if Source_pending src = [] then res = Inl EOF
       else (\<exists>sr. res = Inr sr \<and> SourceReader_in w1 sr \<and>
               SourceReader_bytes w1 sr =
                 Inr (take (nat (Source_partSize src)) (Source_pending src)))"
    by blast
  show ?thesis
    using d n by (auto simp: wf(2))
qed

theorem PartSource_complete_witness:
  "(\<exists>srs src' w'.
      Source_drain 2 (MemorySource (Sequential [Ev [1, 2, 3] None, Ev [4] (Some EOF)]) 2)
        world_empty = Some (Inr srs, src', w') \<and>
      SourceReaders_bytes w' srs = Inr [1, 2, 3, 4]) \<and>
   (\<exists>srs src' w'.
      Source_drain 2 (TempfileSource (Sequential [Ev [1, 2, 3] None]) 2) world_empty =
        Some (Inr srs, src', w') \<and>
      SourceReaders_bytes w' srs = Inr [1, 2, 3]) \<and>
   (\<exists>srs src' w'.
      Source_drain 2 (TempfileSource (RandomAccess [1, 2, 3]) 2) world_empty =
        Some (Inr srs, src', w') \<and>
      SourceReaders_bytes w' srs = Inr [1, 2, 3])"
proof -
  have h1: "(0::int) < 2" and h2: "(0::nat) < 2" by simp_all
  have h3: "World_healthy world_empty" by (simp add: World_healthy_def world_empty_def)
  have a: "Input_ok (Sequential [Ev [1, 2, 3] None, Ev [4] (Some EOF)]) 2"
    by (simp add: Reader_benign_def)
  have b: "Input_ok (Sequential [Ev [1, 2, 3] None]) 2"
    by (simp add: Reader_benign_def)
  have c: "Input_ok (RandomAccess [1, 2, 3]) 2"
    by simp
  show ?thesis
    using PartSource_complete [OF h1 h2 h3 a, of "MemorySource (Sequential [Ev [1, 2, 3] None, Ev [4] (Some EOF)]) 2"]
      PartSource_complete [OF h1 h2 h3 b, of "TempfileSource (Sequential [Ev [1, 2, 3] None]) 2"]
      PartSource_complete [OF h1 h2 h3 c, of "TempfileSource (RandomAccess [1, 2, 3]) 2"]
    by simp
qed

subsection \<open>The hasher and the requests during an upload\<close>

lemma chunks_of_Nil [simp]: "chunks_of k [] = []"
  by (subst chunks_of.simps) simp

lemma chunks_of_step: "0 < k \<Longrightarrow> xs \<noteq> [] \<Longrightarrow> chunks_of k xs = take k xs # chunks_of k (drop k xs)"
  by (subst chunks_of.simps) simp

lemma concat_chunks_of: "0 < k \<Longrightarrow> concat (chunks_of k xs) = xs"
proof (induction k xs rule: chunks_of.induct)
  case (1 k xs)
  then show ?case by (subst chunks_of.simps) auto
qed

lemma chunks_of_nonempty: "[] \<notin> set (chunks_of k xs)"
proof (induction k xs rule: chunks_of.induct)
  case (1 k xs)
  then show ?case by (subst chunks_of.simps) auto
qed

lemma chunks_of_eq_Nil: "0 < k \<Longrightarrow> chunks_of k xs = [] \<longleftrightarrow> xs = []"
  by (subst chunks_of.simps) simp

lemma chunks_of_shape:
  assumes "0 < k"
  shows "(\<forall>c \<in> set (butlast (chunks_of k xs)). length c = k) \<and>
         (chunks_of k xs \<noteq> [] \<longrightarrow> last (chunks_of k xs) \<noteq> [] \<and> length (last (chunks_of k xs)) \<le> k)"
  using assms
proof (induction k xs rule: chunks_of.induct)
  case (1 k xs)
  show ?case
  proof (cases "xs = []")
    case True
    then show ?thesis by simp
  next
    case False
    note st = chunks_of_step [OF "1.prems" False]
    show ?thesis
    proof (cases "drop k xs = []")
      case True
      then show ?thesis using False "1.prems" by (simp add: st)
    next
      case dne: False
      then have "length (take k xs) = k" by simp
      moreover have "chunks_of k (drop k xs) \<noteq> []"
        using dne "1.prems" by (simp add: chunks_of_eq_Nil)
      ultimately show ?thesis
        using "1.IH" "1.prems" False by (simp add: st)
    qed
  qed
qed

lemma chunks_of_append_full:
  assumes "0 < k" and "length xs = j * k"
  shows "chunks_of k (xs @ ys) = chunks_of k xs @ chunks_of k ys"
  using assms
proof (induction j arbitrary: xs)
  case 0
  then show ?case by simp
next
  case (Suc j)
  then have ne: "xs \<noteq> []" "xs @ ys \<noteq> []" by auto
  have l: "length (drop k xs) = j * k" using Suc.prems by simp
  have k_le: "k \<le> length xs" using Suc.prems by simp
  show ?case
    using Suc.IH [OF Suc.prems(1) l] k_le
    by (simp add: chunks_of_step [OF Suc.prems(1) ne(1)] chunks_of_step [OF Suc.prems(1) ne(2)])
qed

lemma length_chunks_of_full:
  assumes "0 < k" and "length xs = j * k"
  shows "length (chunks_of k xs) = j"
  using assms
proof (induction j arbitrary: xs)
  case 0
  then show ?case by simp
next
  case (Suc j)
  then have ne: "xs \<noteq> []" by auto
  have l: "length (drop k xs) = j * k" using Suc.prems by simp
  show ?case
    using Suc.IH [OF Suc.prems(1) l] by (simp add: chunks_of_step [OF Suc.prems(1) ne])
qed

lemma chunks_of_short: "0 < k \<Longrightarrow> xs \<noteq> [] \<Longrightarrow> length xs \<le> k \<Longrightarrow> chunks_of k xs = [xs]"
  by (simp add: chunks_of_step)

lemma HashParts_writes_contents:
  assumes "0 < partSize" and "[] \<notin> set ws"
  shows "\<exists>hp. HashParts_writes (NewHashParts H algo partSize) ws = Some hp \<and>
           HashParts_inv hp \<and>
           HashParts_contents hp = chunks_of (nat partSize) (concat ws) \<and>
           HashParts_partSize hp = partSize \<and> HashParts_hasher hp = H algo \<and>
           HashParts_checksumAlgorithm hp = algo"
proof -
  define hp0 where "hp0 = NewHashParts H algo partSize"
  have inv0: "HashParts_inv hp0" using assms(1) by (simp add: hp0_def HashParts_inv_New)
  have c0: "HashParts_contents hp0 = []"
    by (simp add: hp0_def NewHashParts_def HashParts_contents_def)
  have f0: "HashParts_partSize hp0 = partSize" "HashParts_hasher hp0 = H algo"
    "HashParts_checksumAlgorithm hp0 = algo"
    by (simp_all add: hp0_def NewHashParts_def)
  from HashParts_writes_inv [OF inv0, of ws] obtain hp where
    w0: "HashParts_writes hp0 ws = Some hp" "HashParts_inv hp"
      "concat (HashParts_contents hp) = concat (HashParts_contents hp0) @ concat ws"
      "HashParts_partSize hp = HashParts_partSize hp0"
      "HashParts_hasher hp = HashParts_hasher hp0"
      "HashParts_checksumAlgorithm hp = HashParts_checksumAlgorithm hp0"
      "ws \<noteq> [] \<and> [] \<notin> set ws \<longrightarrow>
         HashParts_contents hp \<noteq> [] \<and> last (HashParts_contents hp) \<noteq> []"
    by blast
  have w: "HashParts_writes hp0 ws = Some hp" "HashParts_inv hp"
      "concat (HashParts_contents hp) = concat ws"
      "HashParts_partSize hp = partSize" "HashParts_hasher hp = H algo"
      "HashParts_checksumAlgorithm hp = algo"
      "ws \<noteq> [] \<longrightarrow> HashParts_contents hp \<noteq> [] \<and> last (HashParts_contents hp) \<noteq> []"
    using w0 assms(2) by (simp_all add: c0 f0)
  have ne: "HashParts_contents hp \<noteq> [] \<longrightarrow> last (HashParts_contents hp) \<noteq> []"
  proof (cases "ws = []")
    case True
    then show ?thesis using w(1) c0 by simp
  next
    case False
    then show ?thesis using w(7) by simp
  qed
  have k: "0 < nat partSize" using assms(1) by simp
  have shape: "\<forall>c \<in> set (butlast (HashParts_contents hp)). length c = nat partSize"
    "HashParts_contents hp \<noteq> [] \<longrightarrow> length (last (HashParts_contents hp)) \<le> nat partSize"
    using w(2,4) by (auto simp: HashParts_inv_def)
  have "HashParts_contents hp = chunks_of (nat partSize) (concat ws)"
  proof (rule chunk_unique [OF k])
    show "\<forall>c \<in> set (butlast (HashParts_contents hp)). length c = nat partSize"
      by (rule shape(1))
    show "HashParts_contents hp \<noteq> [] \<longrightarrow>
        last (HashParts_contents hp) \<noteq> [] \<and> length (last (HashParts_contents hp)) \<le> nat partSize"
      using shape(2) ne by blast
    show "\<forall>c \<in> set (butlast (chunks_of (nat partSize) (concat ws))). length c = nat partSize"
      using chunks_of_shape [OF k, of "concat ws"] by blast
    show "chunks_of (nat partSize) (concat ws) \<noteq> [] \<longrightarrow>
        last (chunks_of (nat partSize) (concat ws)) \<noteq> [] \<and>
        length (last (chunks_of (nat partSize) (concat ws))) \<le> nat partSize"
      using chunks_of_shape [OF k, of "concat ws"] by blast
    show "concat (HashParts_contents hp) = concat (chunks_of (nat partSize) (concat ws))"
      by (simp add: w(3) concat_chunks_of [OF k])
  qed
  then show ?thesis using w unfolding hp0_def by blast
qed

lemma HashParts_of_contents [simp]:
  "HashParts_contents (HashParts_of f algo k B) = chunks_of (nat k) B"
  by (simp add: HashParts_of_def HashParts_contents_def comp_def)

lemma HashParts_of_fields [simp]:
  "HashParts_partSize (HashParts_of f algo k B) = k"
  "HashParts_hasher (HashParts_of f algo k B) = f"
  "HashParts_checksumAlgorithm (HashParts_of f algo k B) = algo"
  "length (HashParts_h (HashParts_of f algo k B)) = length (chunks_of (nat k) B)"
  by (simp_all add: HashParts_of_def)

lemma HashParts_of_inv: "0 < k \<Longrightarrow> HashParts_inv (HashParts_of f algo k B)"
  unfolding HashParts_inv_def HashParts_of_contents
  using chunks_of_shape [of "nat k" B]
  by (auto simp: HashParts_of_def)

lemma HashParts_of_Nil: "HashParts_of f algo k [] = NewHashParts (\<lambda>_. f) algo k"
  by (simp add: HashParts_of_def NewHashParts_def)

lemma HashParts_writes_of:
  assumes "0 < k" and "[] \<notin> set ws"
  shows "HashParts_writes (HashParts_of f algo k D) ws = Some (HashParts_of f algo k (D @ concat ws))"
proof (cases "ws = []")
  case True
  then show ?thesis by simp
next
  case False
  have kk: "0 < nat k" using assms(1) by simp
  from HashParts_writes_inv [OF HashParts_of_inv [OF assms(1)], of f algo D ws] obtain hp where
    w: "HashParts_writes (HashParts_of f algo k D) ws = Some hp" "HashParts_inv hp"
      "concat (HashParts_contents hp) = concat (HashParts_contents (HashParts_of f algo k D)) @ concat ws"
      "HashParts_partSize hp = HashParts_partSize (HashParts_of f algo k D)"
      "HashParts_hasher hp = HashParts_hasher (HashParts_of f algo k D)"
      "HashParts_checksumAlgorithm hp = HashParts_checksumAlgorithm (HashParts_of f algo k D)"
      "ws \<noteq> [] \<and> [] \<notin> set ws \<longrightarrow>
         HashParts_contents hp \<noteq> [] \<and> last (HashParts_contents hp) \<noteq> []"
    by blast
  have "hp = HashParts_of f algo k (D @ concat ws)"
  proof (rule HashParts_canonical [OF w(2) HashParts_of_inv [OF assms(1)]])
    show "HashParts_contents hp \<noteq> [] \<longrightarrow> last (HashParts_contents hp) \<noteq> []"
      using w(7) False assms(2) by simp
    show "HashParts_contents (HashParts_of f algo k (D @ concat ws)) \<noteq> [] \<longrightarrow>
        last (HashParts_contents (HashParts_of f algo k (D @ concat ws))) \<noteq> []"
      using chunks_of_shape [OF kk, of "D @ concat ws"] by simp
    show "concat (HashParts_contents hp) =
        concat (HashParts_contents (HashParts_of f algo k (D @ concat ws)))"
      using w(3) by (simp add: concat_chunks_of [OF kk])
    show "HashParts_partSize hp = HashParts_partSize (HashParts_of f algo k (D @ concat ws))"
      using w(4) by simp
    show "HashParts_hasher hp = HashParts_hasher (HashParts_of f algo k (D @ concat ws))"
      using w(5) by simp
    show "HashParts_checksumAlgorithm hp =
        HashParts_checksumAlgorithm (HashParts_of f algo k (D @ concat ws))"
      using w(6) by simp
    show "HashParts.more hp = HashParts.more (HashParts_of f algo k (D @ concat ws))"
      by simp
  qed
  then show ?thesis using w(1) by simp
qed

lemma S3Hasher_of_Nil: "S3Hasher_of H algo k [] = NewS3Hasher H algo k"
  by (simp add: S3Hasher_of_def NewS3Hasher_def HashParts_of_def NewHashParts_def Hash_New_def)

lemma S3Hasher_writes_of:
  assumes "0 < k" and "[] \<notin> set ws"
  shows "S3Hasher_writes (S3Hasher_of H algo k D) ws = Some (S3Hasher_of H algo k (D @ concat ws))"
proof -
  have inv: "HashParts_inv (S3Hasher_algo_parts (S3Hasher_of H algo k D))"
    "HashParts_inv (S3Hasher_md5_parts (S3Hasher_of H algo k D))"
    using assms(1) by (simp_all add: S3Hasher_of_def HashParts_of_inv)
  from S3Hasher_writes_eq [OF inv, of ws]
  show ?thesis
    using HashParts_writes_of [OF assms]
    by (auto simp: S3Hasher_of_def Hash_Write_def)
qed


lemma S3Hasher_of_algo [simp]: "S3Hasher_ChecksumAlgorithm (S3Hasher_of H algo k D) = algo"
  by (simp add: S3Hasher_ChecksumAlgorithm_def S3Hasher_of_def)

lemma S3Hasher_of_PartSize_1:
  assumes "0 < k" and "D \<noteq> []"
  shows "S3Hasher_PartSize (S3Hasher_of H algo k D) 1 = Some (int (min (length D) (nat k)))"
proof -
  have kk: "0 < nat k" using assms(1) by simp
  have "chunks_of (nat k) D = take (nat k) D # chunks_of (nat k) (drop (nat k) D)"
    by (rule chunks_of_step [OF kk assms(2)])
  then show ?thesis
    by (simp add: S3Hasher_PartSize_def HashParts_PartSize_def S3Hasher_of_def HashParts_of_def
        min.commute)
qed

lemma S3Hasher_of_SumPart:
  assumes "1 \<le> i" and "i \<le> int (length (chunks_of (nat k) D))"
  shows "\<exists>a m. S3Hasher_SumPart (S3Hasher_of H algo k D) i = Some a \<and>
           S3Hasher_MD5SumPart (S3Hasher_of H algo k D) i = Some m"
  using assms
  by (simp add: S3Hasher_SumPart_def S3Hasher_MD5SumPart_def HashParts_Sum_def S3Hasher_of_def)

lemma uploaded_parts_append [simp]:
  "uploaded_parts (xs @ ys) = uploaded_parts xs @ uploaded_parts ys"
  by (induction xs rule: uploaded_parts.induct) simp_all

lemma word32_small:
  fixes M :: "32 word"
  assumes "0 \<le> sint M" and "n \<le> unat M"
  shows "sint (word_of_nat n :: 32 word) = int n" and "(word_of_nat n = M) = (n = unat M)"
proof -
  have lt: "sint M < 2 ^ 31" using sint_lt [of M] by simp
  then have "take_bit 32 (sint M) = sint M"
    using assms(1) by (simp add: take_bit_int_eq_self)
  then have um: "uint M = sint M" using uint_sint [of M] by simp
  have "int n \<le> uint M" by (metis assms(2) of_nat_le_iff of_nat_unat)
  then have n: "int n < 2 ^ 31" using um lt by simp
  show "sint (word_of_nat n :: 32 word) = int n"
    using n by (simp add: signed_of_nat signed_take_bit_int_eq_self)
  have "n < 2 ^ 31" using n by (metis of_nat_less_iff of_nat_numeral of_nat_power)
  then have "n < 2 ^ 32" by (rule less_trans) simp
  then have "unat (word_of_nat n :: 32 word) = n"
    by (simp add: unsigned_of_nat take_bit_nat_eq_self)
  then show "(word_of_nat n = M) = (n = unat M)"
    by (metis word_eq_iff_unsigned)
qed

subsection \<open>The workers of a session whose state has no mutex\<close>

lemma worker_event_nil_mutex:
  assumes "st_mu (sup_st p) = None"
    and "worker_event s3 ev p w calls = (perr, p', w', calls')"
  shows "sup_st p' = sup_st p \<and> sup_counter p' = sup_counter p \<and>
         sup_workers p' = sup_workers p \<and> w' = w \<and>
         length (sup_queued p') + length (sup_inflight p') =
           length (sup_queued p) + length (sup_inflight p) \<and>
         (perr = None \<or> perr = Some (Panic ''nil pointer dereference'')) \<and>
         (\<exists>ext. calls' = calls @ ext \<and> list_all is_part_call ext \<and>
            length (sup_inflight p') = length (sup_inflight p) + length ext) \<and>
         (length (sup_inflight p) \<le> sup_workers p \<longrightarrow>
            length (sup_inflight p') \<le> sup_workers p')"
proof (cases ev)
  case (Receive i)
  then show ?thesis using assms(2)
    by (auto simp: remove_nth_def split: if_splits)
next
  case (Answer j)
  then show ?thesis using assms
    by (auto simp: setPartResults_def Let_def split: if_splits prod.splits)
qed

lemma worker_events_nil_mutex:
  assumes "st_mu (sup_st p) = None"
    and "worker_events s3 evs p w calls = (perr, p', w', calls')"
  shows "sup_st p' = sup_st p \<and> sup_counter p' = sup_counter p \<and>
         sup_workers p' = sup_workers p \<and> w' = w \<and>
         length (sup_queued p') + length (sup_inflight p') =
           length (sup_queued p) + length (sup_inflight p) \<and>
         (perr = None \<or> perr = Some (Panic ''nil pointer dereference'')) \<and>
         (\<exists>ext. calls' = calls @ ext \<and> list_all is_part_call ext \<and>
            length (sup_inflight p') = length (sup_inflight p) + length ext) \<and>
         (length (sup_inflight p) \<le> sup_workers p \<longrightarrow>
            length (sup_inflight p') \<le> sup_workers p')"
  using assms
proof (induction evs arbitrary: p w calls)
  case Nil
  then show ?case by simp
next
  case (Cons ev evs)
  obtain e1 p1 w1 c1 where s: "worker_event s3 ev p w calls = (e1, p1, w1, c1)"
    by (metis prod.exhaust)
  note a = worker_event_nil_mutex [OF Cons.prems(1) s]
  show ?case
  proof (cases e1)
    case None
    then have r: "worker_events s3 evs p1 w1 c1 = (perr, p', w', calls')"
      using Cons.prems(2) s by simp
    have m1: "st_mu (sup_st p1) = None" using a Cons.prems(1) by simp
    from Cons.IH [OF m1 r] a show ?thesis by auto
  next
    case (Some e)
    then have "(perr, p', w', calls') = (e1, p1, w1, c1)"
      using Cons.prems(2) s by simp
    then show ?thesis using a by auto
  qed
qed

lemma drain_events_nil_mutex:
  assumes "st_mu (sup_st p) = None" and "0 < sup_workers p"
    and "0 < length (sup_queued p) + length (sup_inflight p)"
  shows "fst (worker_events s3 (drain_events p) p w calls) =
           Some (Panic ''nil pointer dereference'')"
proof (cases "sup_inflight p")
  case Nil
  then obtain q qs where q: "sup_queued p = q # qs" using assms(3) by (cases "sup_queued p") auto
  show ?thesis
    using assms(1,2) Nil q
    by (simp add: drain_events_def setPartResults_def remove_nth_def Let_def split: prod.splits)
next
  case (Cons q qs)
  then show ?thesis
    using assms(1)
    by (simp add: drain_events_def setPartResults_def Let_def split: prod.splits)
qed

lemma Wait_nil_mutex:
  assumes "st_mu (sup_st p) = None" and "0 < sup_workers p"
    and "0 < length (sup_queued p) + length (sup_inflight p)"
    and "\<not> (0 < opt_UploadPartTimeout opts \<and> env_timer env)"
  shows "\<exists>p' ext. Wait env opts n p w calls =
           Some (Some (Panic ''nil pointer dereference''), p', w, calls @ ext) \<and>
           list_all is_part_call ext \<and>
           (length (sup_inflight p) \<le> sup_workers p \<longrightarrow>
              length (sup_inflight p) + length ext \<le> sup_workers p)"
proof -
  obtain e1 p1 w1 c1 where
    s: "worker_events (env_s3 env) (env_sched env n) p w calls = (e1, p1, w1, c1)"
    by (metis prod.exhaust)
  note a = worker_events_nil_mutex [OF assms(1) s]
  show ?thesis
  proof (cases e1)
    case (Some e)
    then show ?thesis using a s by (auto simp: Wait_def)
  next
    case None
    obtain e2 p2 w2 c2 where
      d: "worker_events (env_s3 env) (drain_events p1) p1 w1 c1 = (e2, p2, w2, c2)"
      by (metis prod.exhaust)
    have m1: "st_mu (sup_st p1) = None" and wk: "0 < sup_workers p1"
      and pend: "0 < length (sup_queued p1) + length (sup_inflight p1)"
      using a assms(1,2,3) by simp_all
    note b = worker_events_nil_mutex [OF m1 d]
    have e2: "e2 = Some (Panic ''nil pointer dereference'')"
      using drain_events_nil_mutex [OF m1 wk pend, of "env_s3 env" w1 c1] d by simp
    have ne: "\<not> (sup_queued p1 = [] \<and> sup_inflight p1 = [])" using pend by auto
    show ?thesis
      using a b e2 s d None ne wk assms(4)
      by (auto simp: Wait_def)
  qed
qed

lemma upload_finish_nil_mutex:
  assumes "st_mu (sup_st p) = None" and "0 < sup_workers p"
    and "0 < length (sup_queued p) + length (sup_inflight p)"
    and "\<not> (0 < opt_UploadPartTimeout opts \<and> env_timer env)"
  shows "\<exists>ext. upload_finish env opts p hr n w calls =
           Some ((None, Some (Panic ''nil pointer dereference'')), w, calls @ ext) \<and>
           list_all is_part_call ext \<and>
           (length (sup_inflight p) \<le> sup_workers p \<longrightarrow>
              length (sup_inflight p) + length ext \<le> sup_workers p)"
  using Wait_nil_mutex [OF assms, of n w calls]
  by (auto simp: upload_finish_def)

lemma uploadPart_nil_mutex:
  assumes "st_mu (sup_st p) = None"
  shows "uploadPart s3 p part calls =
           (Some (Panic ''nil pointer dereference''), p, calls @ [CallUploadPart part])"
  using assms by (simp add: uploadPart_def setPartResults_def split: prod.splits)
lemma upload_submit_cap:
  assumes "lastPartID (sup_counter m) = MaxPartID (sup_counter m)"
  shows "upload_submit Bucket Key m hw sr body = Inl ErrMaxPartID"
  using assms by (simp add: upload_submit_def NextPartID_def)

lemma upload_submit_ok:
  assumes "sup_counter m = \<lparr>lastPartID = word_of_nat j, MaxPartID = M\<rparr>"
    and "0 \<le> sint M" and "j < unat M"
    and "S3Hasher_SumPart hw (int (j + 1)) = Some a"
    and "S3Hasher_MD5SumPart hw (int (j + 1)) = Some md"
  shows "\<exists>part. upload_submit Bucket Key m hw sr body =
           Inr (m\<lparr>sup_counter := \<lparr>lastPartID = word_of_nat (j + 1), MaxPartID = M\<rparr>,
                  sup_queued := sup_queued m @ [\<lparr>qp_part = part, qp_closer = Some sr\<rparr>]\<rparr>) \<and>
         UploadPartInput_PartNumber part = int (j + 1) \<and> UploadPartInput_Body part = body"
proof -
  have ne: "(word_of_nat j :: 32 word) \<noteq> M"
    using word32_small(2) [OF assms(2), of j] assms(3) by simp
  have s: "sint (word_of_nat j + 1 :: 32 word) = int (j + 1)"
    using word32_small(1) [OF assms(2), of "j + 1"] assms(3) by (simp add: add.commute)
  have s': "sint (1 + word_of_nat j :: 32 word) = 1 + int j"
    using s by (simp add: add.commute)
  define part where "part = \<lparr>UploadPartInput_Bucket = Bucket, UploadPartInput_Key = Key,
      UploadPartInput_UploadId =
        (case st_createOutput (sup_st m) of None \<Rightarrow> None | Some uploadId \<Rightarrow> uploadId),
      UploadPartInput_PartNumber = int (j + 1), UploadPartInput_Body = body,
      UploadPartInput_ContentMD5 = Some md,
      UploadPartInput_Checksum = checksum_field (S3Hasher_ChecksumAlgorithm hw) a\<rparr>"
  show ?thesis
    using ne assms(4,5)
    by (intro exI [of _ part])
       (simp add: upload_submit_def UploadPart_def NextPartID_def assms(1) Let_def s s'
          part_def add.commute split: prod.splits)
qed

lemma upload_loop_nil_mutex:
  assumes k: "0 < k" "opt_PartSize opts = k" and c: "0 < opt_copyBufSize opts"
    and M: "0 \<le> sint (opt_MaxPartID opts)"
    and t: "\<not> (0 < opt_UploadPartTimeout opts \<and> env_timer env)"
    and src: "Source_wf src" "Source_partSize src = k" and w: "World_healthy w"
    and mu: "st_mu (sup_st m) = None" "0 < sup_workers m"
      "0 < length (sup_queued m) + length (sup_inflight m)"
      "length (sup_inflight m) \<le> sup_workers m"
    and cnt: "sup_counter m = \<lparr>lastPartID = word_of_nat j, MaxPartID = opt_MaxPartID opts\<rparr>"
      "j \<le> unat (opt_MaxPartID opts)"
    and D: "length (chunks_of (nat k) D) = j" "R \<noteq> [] \<longrightarrow> length D = j * nat k"
    and pk: "(peeked = None \<and> R = Source_pending src) \<or>
             (\<exists>sr. peeked = Some (Inr sr) \<and> SourceReader_bytes w sr = Inr (take (nat k) R) \<and>
                   R \<noteq> [] \<and> Source_pending src = drop (nat k) R)"
  shows "\<exists>err w' ext.
      upload_loop env opts Bucket Key src (S3Hasher_of H algo k D) (Some m) peeked n w calls =
        Some ((None, Some err), w', calls @ ext) \<and>
      list_all is_part_call ext \<and>
      length (sup_inflight m) + length ext \<le> sup_workers m \<and>
      (err = Panic ''nil pointer dereference'' \<or>
       err = ErrMaxPartID \<and> unat (opt_MaxPartID opts) - j < length (chunks_of (nat k) R))"
  using src w mu cnt D pk
proof (induction "length R" arbitrary: R src w m j D peeked calls n rule: less_induct)
  case less
  note src = less.prems(1,2) and w = less.prems(3) and mu = less.prems(4,5,6,7)
    and cnt = less.prems(8,9) and D = less.prems(10,11) and pk = less.prems(12)
  define cb where "cb = opt_copyBufSize opts"
  define MX where "MX = opt_MaxPartID opts"
  have kk: "0 < nat k" using k(1) by simp
  have cb: "0 < cb" using c by (simp add: cb_def)
  obtain e1 m1 w1' c1 where
    ev: "worker_events (env_s3 env) (env_sched env n) m w calls = (e1, m1, w1', c1)"
    by (metis prod.exhaust)
  from worker_events_nil_mutex [OF mu(1) ev] obtain ext1 where
    m1: "sup_st m1 = sup_st m" "sup_counter m1 = sup_counter m" "sup_workers m1 = sup_workers m"
      "w1' = w"
      "length (sup_queued m1) + length (sup_inflight m1) =
         length (sup_queued m) + length (sup_inflight m)"
      "e1 = None \<or> e1 = Some (Panic ''nil pointer dereference'')"
      "c1 = calls @ ext1" "list_all is_part_call ext1"
      "length (sup_inflight m1) = length (sup_inflight m) + length ext1"
      "length (sup_inflight m1) \<le> sup_workers m1"
    using mu(4) by blast
  show ?case
  proof (cases e1)
    case (Some e)
    then have e: "e = Panic ''nil pointer dereference''" using m1(6) by simp
    have "upload_loop env opts Bucket Key src (S3Hasher_of H algo k D) (Some m) peeked n w calls =
        Some ((None, Some e), w, c1)"
      using ev Some m1(4) by (subst upload_loop.simps) simp
    then show ?thesis using e m1(3,7,8,9,10) by auto
  next
    case None
    define fetch where "fetch = (case peeked of Some r \<Rightarrow> Some (r, src, w)
                                  | None \<Rightarrow> Source_Next (opt_copyBufSize opts) src w)"
    have "\<exists>res0 src1 w1. fetch = Some (res0, src1, w1) \<and> Source_wf src1 \<and>
        Source_partSize src1 = k \<and> World_healthy w1 \<and>
        Source_pending src1 = drop (nat k) R \<and>
        (if R = [] then res0 = Inl EOF
         else (\<exists>sr. res0 = Inr sr \<and> SourceReader_bytes w1 sr = Inr (take (nat k) R)))"
    proof (rule disjE [OF pk])
      assume a: "peeked = None \<and> R = Source_pending src"
      from Source_Next_step [OF src(1) w c]
      show ?thesis using a src(2) by (auto simp: fetch_def split: if_splits)
    next
      assume "\<exists>sr. peeked = Some (Inr sr) \<and> SourceReader_bytes w sr = Inr (take (nat k) R) \<and>
                     R \<noteq> [] \<and> Source_pending src = drop (nat k) R"
      then show ?thesis using src w by (auto simp: fetch_def)
    qed
    then obtain res0 src1 w1 where
      f: "fetch = Some (res0, src1, w1)" "Source_wf src1" "Source_partSize src1 = k"
        "World_healthy w1" "Source_pending src1 = drop (nat k) R"
        "if R = [] then res0 = Inl EOF
         else (\<exists>sr. res0 = Inr sr \<and> SourceReader_bytes w1 sr = Inr (take (nat k) R))"
      by blast
    have head: "worker_events (env_s3 env) (env_sched env n) m w calls = (None, m1, w, c1)"
      using ev None m1(4) by simp
    have pend1: "0 < length (sup_queued m1) + length (sup_inflight m1)"
      using m1(5) mu(3) by linarith
    have mu1: "st_mu (sup_st m1) = None" "0 < sup_workers m1"
      "0 < length (sup_queued m1) + length (sup_inflight m1)"
      using m1(1,3) mu(1,2) pend1 by simp_all
    note in1 = m1(10)
    show ?thesis
    proof (cases "R = []")
      case True
      then have r0: "res0 = Inl EOF" using f(6) by simp
      have "upload_loop env opts Bucket Key src (S3Hasher_of H algo k D) (Some m) peeked n w calls =
          upload_finish env opts m1 (S3Hasher_of H algo k D) (n + 1) w1 c1"
        using f(1) r0 by (subst upload_loop.simps) (simp add: head fetch_def [symmetric])
      moreover from upload_finish_nil_mutex [OF mu1 t, of "S3Hasher_of H algo k D" "n + 1" w1 c1]
      obtain ext2 where
        "upload_finish env opts m1 (S3Hasher_of H algo k D) (n + 1) w1 c1 =
           Some ((None, Some (Panic ''nil pointer dereference'')), w1, c1 @ ext2)"
        "list_all is_part_call ext2"
        "length (sup_inflight m1) + length ext2 \<le> sup_workers m1"
        using in1 by blast
      ultimately show ?thesis using m1(3,7,8,9) by auto
    next
      case False
      then obtain sr where sr: "res0 = Inr sr" "SourceReader_bytes w1 sr = Inr (take (nat k) R)"
        using f(6) by auto
      define b where "b = take (nat k) R"
      have b: "b \<noteq> []" "length b \<le> nat k" using False kk by (auto simp: b_def)
      have chR: "chunks_of (nat k) R = b # chunks_of (nat k) (drop (nat k) R)"
        using chunks_of_step [OF kk False] by (simp add: b_def)
      have lD: "length D = j * nat k" using D(2) False by simp
      have hw: "S3Hasher_writes (S3Hasher_of H algo k D) (chunks_of cb b) =
          Some (S3Hasher_of H algo k (D @ b))"
        using S3Hasher_writes_of [OF k(1) chunks_of_nonempty, of H algo D cb b]
        by (simp add: concat_chunks_of [OF cb])
      define hw1 where "hw1 = S3Hasher_of H algo k (D @ b)"
      have chD: "chunks_of (nat k) (D @ b) = chunks_of (nat k) D @ [b]"
        using chunks_of_append_full [OF kk lD, of b] chunks_of_short [OF kk b] by simp
      have unfold: "upload_loop env opts Bucket Key src (S3Hasher_of H algo k D) (Some m) peeked n w calls =
          (case upload_submit Bucket Key m1 hw1 sr b of
             Inl err \<Rightarrow> Some ((None, Some err), w1, c1)
           | Inr m' \<Rightarrow>
               upload_loop env opts Bucket Key src1 hw1 (Some m') None (n + 1) w1 c1)"
        using f(1) sr c hw
        by (subst upload_loop.simps)
           (simp add: head fetch_def [symmetric] cb_def [symmetric] b_def [symmetric]
              hw1_def [symmetric])
      have cnt1: "sup_counter m1 = \<lparr>lastPartID = word_of_nat j, MaxPartID = MX\<rparr>"
        using cnt(1) m1(2) by (simp add: MX_def)
      show ?thesis
      proof (cases "j = unat MX")
        case True
        then have "lastPartID (sup_counter m1) = MaxPartID (sup_counter m1)"
          using cnt1 by simp
        from upload_submit_cap [OF this]
        have "upload_loop env opts Bucket Key src (S3Hasher_of H algo k D) (Some m) peeked n w calls =
            Some ((None, Some ErrMaxPartID), w1, c1)"
          by (simp add: unfold)
        then show ?thesis using True m1(3,7,8,9,10) by (auto simp: MX_def chR)
      next
        case jne: False
        then have jlt: "j < unat MX" using cnt(2) by (simp add: MX_def)
        have "1 \<le> int (j + 1)" "int (j + 1) \<le> int (length (chunks_of (nat k) (D @ b)))"
          using D(1) by (simp_all add: chD)
        from S3Hasher_of_SumPart [OF this, of H algo] obtain a md where
          sum: "S3Hasher_SumPart hw1 (int (j + 1)) = Some a"
            "S3Hasher_MD5SumPart hw1 (int (j + 1)) = Some md"
          by (auto simp: hw1_def)
        from upload_submit_ok [OF cnt1 M [folded MX_def] jlt sum, of Bucket Key sr b]
        obtain part where
          up: "upload_submit Bucket Key m1 hw1 sr b =
             Inr (m1\<lparr>sup_counter := \<lparr>lastPartID = word_of_nat (j + 1), MaxPartID = MX\<rparr>,
                    sup_queued := sup_queued m1 @ [\<lparr>qp_part = part, qp_closer = Some sr\<rparr>]\<rparr>)"
          by blast
        define m' where "m' = m1\<lparr>sup_counter := \<lparr>lastPartID = word_of_nat (j + 1), MaxPartID = MX\<rparr>,
                    sup_queued := sup_queued m1 @ [\<lparr>qp_part = part, qp_closer = Some sr\<rparr>]\<rparr>"
        define R' where "R' = drop (nat k) R"
        have shorter: "length R' < length R" using False kk by (simp add: R'_def)
        have mu': "st_mu (sup_st m') = None" "0 < sup_workers m'"
          "0 < length (sup_queued m') + length (sup_inflight m')"
          "length (sup_inflight m') \<le> sup_workers m'"
          using mu1 in1 by (simp_all add: m'_def)
        have cnt': "sup_counter m' =
            \<lparr>lastPartID = word_of_nat (j + 1), MaxPartID = opt_MaxPartID opts\<rparr>"
          by (simp add: m'_def MX_def)
        have D': "length (chunks_of (nat k) (D @ b)) = j + 1"
          by (simp add: chD D(1))
        have D'': "R' \<noteq> [] \<longrightarrow> length (D @ b) = (j + 1) * nat k"
          using lD by (auto simp: R'_def b_def)
        have pk': "(None = (None :: (error + SourceReader) option) \<and> R' = Source_pending src1) \<or>
               (\<exists>sr. None = Some (Inr sr) \<and> SourceReader_bytes w1 sr = Inr (take (nat k) R') \<and>
                     R' \<noteq> [] \<and> Source_pending src1 = drop (nat k) R')"
          using f(5) by (simp add: R'_def)
        have j1: "j + 1 \<le> unat (opt_MaxPartID opts)" using jlt by (simp add: MX_def)
        from less.hyps [OF shorter f(2,3,4) mu' cnt' j1 D' D'' pk', of "n + 1" c1]
        obtain err w' ext2 where
          ih: "upload_loop env opts Bucket Key src1 (S3Hasher_of H algo k (D @ b)) (Some m') None
                 (n + 1) w1 c1 = Some ((None, Some err), w', c1 @ ext2)"
            "list_all is_part_call ext2"
            "length (sup_inflight m') + length ext2 \<le> sup_workers m'"
            "err = Panic ''nil pointer dereference'' \<or>
             err = ErrMaxPartID \<and>
             unat (opt_MaxPartID opts) - (j + 1) < length (chunks_of (nat k) R')"
          by blast
        have res: "upload_loop env opts Bucket Key src (S3Hasher_of H algo k D) (Some m) peeked n w calls =
            Some ((None, Some err), w', calls @ ext1 @ ext2)"
          using ih(1) unfolding unfold up by (simp add: m'_def hw1_def m1(7))
        have cap: "err = Panic ''nil pointer dereference'' \<or>
            err = ErrMaxPartID \<and> unat (opt_MaxPartID opts) - j < length (chunks_of (nat k) R)"
          using ih(4) jlt unfolding chR by (auto simp: R'_def MX_def)
        have cnt2: "length (sup_inflight m) + length (ext1 @ ext2) \<le> sup_workers m"
          using ih(3) m1(3,9) by (simp add: m'_def)
        show ?thesis
          using res cap ih(2) m1(8) cnt2
          by (intro exI [of _ err] exI [of _ w'] exI [of _ "ext1 @ ext2"]) simp
      qed
    qed
  qed
qed
lemma putObject_calls:
  "\<exists>obj p w'. putObject env body rc Bucket Key hr w calls =
       ((Some p, snd (s3_PutObject (env_s3 env) obj)), w',
        calls @ CallPutObject obj #
          (if snd (s3_PutObject (env_s3 env) obj) = None
           then [CallGetObjectAttributes Bucket Key] else [])) \<and>
     PutObjectInput_Body obj = body \<and> PutObjectInput_Bucket obj = Bucket \<and>
     PutObjectInput_Key obj = Key \<and>
     st_create p = None \<and> st_objError p = snd (s3_PutObject (env_s3 env) obj)"
proof -
  define obj where "obj = \<lparr>PutObjectInput_Bucket = Bucket, PutObjectInput_Key = Key,
      PutObjectInput_Body = body, PutObjectInput_ContentMD5 = S3Hasher_MD5Sum hr,
      PutObjectInput_Checksum =
        checksum_field (S3Hasher_ChecksumAlgorithm hr) (S3Hasher_Sum hr)\<rparr>"
  show ?thesis
    by (rule exI [of _ obj])
       (simp add: putObject_def Let_def S3UploadState_empty_def obj_def split: prod.splits)
qed

lemma upload_dispatch:
  assumes k: "0 < opt_PartSize opts" and c: "0 < opt_copyBufSize opts"
    and w: "World_healthy w"
    and ok: "Input_ok r (opt_PartSize opts)"
    and src: "src = (if opt_UseMemoryBuffers opts then MemorySource r (opt_PartSize opts)
                     else TempfileSource r (opt_PartSize opts))"
    and B: "B = Input_bytes r" "B \<noteq> []" and kn: "k = nat (opt_PartSize opts)"
  shows "\<exists>sr src1 w1 nxt src2 w2 res w' calls.
      Source_Next (opt_copyBufSize opts) src w = Some (Inr sr, src1, w1) \<and>
      SourceReader_bytes w1 sr = Inr (take k B) \<and>
      Source_Next (opt_copyBufSize opts) src1 w1 = Some (nxt, src2, w2) \<and>
      (nxt = Inl EOF \<longleftrightarrow> length B \<le> k) \<and>
      (length B \<le> k \<longrightarrow>
         upload env opts r Bucket Key w = Some (res, w', calls) \<and>
         (\<exists>st obj. fst res = Some st \<and> st_create st = None \<and>
            PutObjectInput_Body obj = B \<and>
            snd res = snd (s3_PutObject (env_s3 env) obj) \<and>
            calls = CallPutObject obj #
              (if snd (s3_PutObject (env_s3 env) obj) = None
               then [CallGetObjectAttributes Bucket Key] else []))) \<and>
      (\<not> length B \<le> k \<longrightarrow> 0 \<le> sint (opt_MaxPartID opts) \<longrightarrow>
       0 < opt_ConcurrentParts opts \<longrightarrow>
       \<not> (0 < opt_UploadPartTimeout opts \<and> env_timer env) \<longrightarrow>
         (\<exists>create ext err w' calls.
            upload env opts r Bucket Key w = Some ((None, Some err), w', calls) \<and>
            calls = CallCreateMultipartUpload create # ext \<and> list_all is_part_call ext \<and>
            length ext \<le> nat (opt_ConcurrentParts opts) \<and>
            (case snd (s3_CreateMultipartUpload (env_s3 env) create) of
               Some e \<Rightarrow> ext = [] \<and> err = e
             | None \<Rightarrow>
                 err = Panic ''nil pointer dereference'' \<or>
                 err = ErrMaxPartID \<and>
                 unat (opt_MaxPartID opts) < length (chunks_of k B))))"
proof -
  define kI where "kI = opt_PartSize opts"
  define cb where "cb = opt_copyBufSize opts"
  define MX where "MX = opt_MaxPartID opts"
  define H where "H = env_hasher env"
  define algo where "algo = opt_ChecksumAlgorithm opts"
  have kI: "0 < kI" "k = nat kI" "0 < k" using k kn by (simp_all add: kI_def)
  have cb: "0 < cb" using c by (simp add: cb_def)
  have "src = TempfileSource r kI \<or> src = MemorySource r kI"
    using src by (simp add: kI_def)
  note wf = Source_wf_of_Input [OF kI(1) ok [folded kI_def] this]
  from Source_Next_step [OF wf(1) w cb] B(2) obtain sr src1 w1 where
    s1: "Source_Next cb src w = Some (Inr sr, src1, w1)" "Source_wf src1" "World_healthy w1"
      "Source_partSize src1 = kI" "Source_pending src1 = drop k B"
      "SourceReader_in w1 sr" "SourceReader_bytes w1 sr = Inr (take k B)"
    by (auto simp: wf(2,3) B(1) kI(2) split: if_splits)
  have "\<exists>nxt src2 w2. Source_Next cb src1 w1 = Some (nxt, src2, w2) \<and> Source_wf src2 \<and>
      World_healthy w2 \<and> Source_partSize src2 = kI \<and>
      Source_pending src2 = drop k (drop k B) \<and>
      (if drop k B = [] then nxt = Inl EOF
       else (\<exists>sr2. nxt = Inr sr2 \<and> SourceReader_bytes w2 sr2 = Inr (take k (drop k B))))"
    using Source_Next_step [OF s1(2,3) cb] unfolding s1(4) s1(5) kI(2) [symmetric]
    by (cases "drop k B = []") auto
  then obtain nxt src2 w2 where
    s2: "Source_Next cb src1 w1 = Some (nxt, src2, w2)" "Source_wf src2" "World_healthy w2"
      "Source_partSize src2 = kI" "Source_pending src2 = drop k (drop k B)"
      "if drop k B = [] then nxt = Inl EOF
       else (\<exists>sr2. nxt = Inr sr2 \<and> SourceReader_bytes w2 sr2 = Inr (take k (drop k B)))"
    by blast
  have nxt: "nxt = Inl EOF \<longleftrightarrow> length B \<le> k"
    using s2(6) by (auto split: if_splits)
  define b where "b = take k B"
  have b: "b \<noteq> []" "length b \<le> k" using B(2) kI(3) by (auto simp: b_def)
  define hw where "hw = S3Hasher_of H algo kI b"
  have hws: "S3Hasher_writes (NewS3Hasher H algo kI) (chunks_of cb b) = Some hw"
    using S3Hasher_writes_of [OF kI(1) chunks_of_nonempty, of H algo "[]" cb b]
    by (simp add: concat_chunks_of [OF cb] S3Hasher_of_Nil hw_def)
  have ps: "S3Hasher_PartSize hw 1 = Some (int (length b))"
    using S3Hasher_of_PartSize_1 [OF kI(1) b(1), of H algo] b(2)
    by (simp add: hw_def kI(2) min_def)
  define create where "create = \<lparr>CreateInput_Bucket = Bucket, CreateInput_Key = Key,
      CreateInput_ChecksumAlgorithm = S3Hasher_ChecksumAlgorithm hw\<rparr>"
  have unfold: "upload env opts r Bucket Key w =
      (if int (length b) < kI then Some (putObject env b (Some sr) Bucket Key hw w1 [])
       else if length B \<le> k then Some (putObject env b (Some sr) Bucket Key hw w2 [])
       else (case NewS3UploadParts (env_s3 env) hw create MX (opt_ConcurrentParts opts) [] of
               (Inl e, calls1) \<Rightarrow> Some ((None, Some e), w2, calls1)
             | (Inr m, calls1) \<Rightarrow>
                 (case upload_submit Bucket Key m hw sr b of
                    Inl err \<Rightarrow> Some ((None, Some err), w2, calls1)
                  | Inr m' \<Rightarrow>
                      upload_loop env opts Bucket Key src2 hw (Some m') (Some nxt) (0 + 1) w2
                        calls1)))"
    unfolding upload_def src [symmetric]
    apply (subst upload_loop.simps)
    using s1(1,7) s2(1,6) hws ps c nxt
    apply (simp add: cb_def [symmetric] kI_def [symmetric] H_def [symmetric] algo_def [symmetric]
        b_def [symmetric] create_def [symmetric] MX_def [symmetric] Let_def
        split: prod.splits option.splits if_splits)
    apply (auto split: sum.splits)
    done
  have single: "\<exists>res w' calls. upload env opts r Bucket Key w = Some (res, w', calls) \<and>
         (\<exists>st obj. fst res = Some st \<and> st_create st = None \<and>
            PutObjectInput_Body obj = B \<and>
            snd res = snd (s3_PutObject (env_s3 env) obj) \<and>
            calls = CallPutObject obj #
              (if snd (s3_PutObject (env_s3 env) obj) = None
               then [CallGetObjectAttributes Bucket Key] else []))"
    if le: "length B \<le> k"
  proof -
    have bB: "b = B" using le by (simp add: b_def)
    obtain wx where "upload env opts r Bucket Key w =
        Some (putObject env B (Some sr) Bucket Key hw wx [])"
      using unfold le bB by (cases "int (length b) < kI") auto
    moreover from putObject_calls [of env B "Some sr" Bucket Key hw wx "[]"]
    obtain obj p w' where
      "putObject env B (Some sr) Bucket Key hw wx [] =
         ((Some p, snd (s3_PutObject (env_s3 env) obj)), w',
          [] @ CallPutObject obj #
            (if snd (s3_PutObject (env_s3 env) obj) = None
             then [CallGetObjectAttributes Bucket Key] else []))"
      "PutObjectInput_Body obj = B" "st_create p = None"
      by blast
    ultimately show ?thesis by auto
  qed
  have multi: "\<exists>create ext err w' calls.
            upload env opts r Bucket Key w = Some ((None, Some err), w', calls) \<and>
            calls = CallCreateMultipartUpload create # ext \<and> list_all is_part_call ext \<and>
            length ext \<le> nat (opt_ConcurrentParts opts) \<and>
            (case snd (s3_CreateMultipartUpload (env_s3 env) create) of
               Some e \<Rightarrow> ext = [] \<and> err = e
             | None \<Rightarrow>
                 err = Panic ''nil pointer dereference'' \<or>
                 err = ErrMaxPartID \<and>
                 unat (opt_MaxPartID opts) < length (chunks_of k B))"
    if gt: "\<not> length B \<le> k" and M: "0 \<le> sint (opt_MaxPartID opts)"
      and wk: "0 < opt_ConcurrentParts opts"
      and t: "\<not> (0 < opt_UploadPartTimeout opts \<and> env_timer env)"
  proof -
    have lb: "length b = k" "\<not> int (length b) < kI" using gt kI by (auto simp: b_def)
    have R: "drop k B \<noteq> []" using gt by simp
    then obtain sr2 where sr2: "nxt = Inr sr2"
      "SourceReader_bytes w2 sr2 = Inr (take k (drop k B))"
      using s2(6) by auto
    have chB: "chunks_of k B = b # chunks_of k (drop k B)"
      using chunks_of_step [OF kI(3) B(2)] by (simp add: b_def)
    have chb: "chunks_of (nat kI) b = [b]"
      using chunks_of_short [OF kI(3) b] by (simp add: kI(2))
    show ?thesis
    proof (cases "snd (s3_CreateMultipartUpload (env_s3 env) create)")
      case (Some e)
      then have "NewS3UploadParts (env_s3 env) hw create MX (opt_ConcurrentParts opts) [] =
          (Inl e, [CallCreateMultipartUpload create])"
        by (auto simp: NewS3UploadParts_def Let_def split: prod.splits)
      then have "upload env opts r Bucket Key w =
          Some ((None, Some e), w2, [CallCreateMultipartUpload create])"
        using unfold gt lb by simp
      then show ?thesis using Some by auto
    next
      case None
      define m0 where "m0 = \<lparr>sup_st = (S3UploadState_empty hw)
            \<lparr>st_create := Some create,
             st_createOutput := fst (s3_CreateMultipartUpload (env_s3 env) create)\<rparr>,
          sup_counter = NewPartCounter MX,
          sup_workers = nat (opt_ConcurrentParts opts),
          sup_queued = [], sup_inflight = []\<rparr>"
      have new: "NewS3UploadParts (env_s3 env) hw create MX (opt_ConcurrentParts opts) [] =
          (Inr m0, [CallCreateMultipartUpload create])"
        using None by (auto simp: NewS3UploadParts_def m0_def Let_def split: prod.splits)
      have u1: "upload env opts r Bucket Key w =
          (case upload_submit Bucket Key m0 hw sr b of
             Inl err \<Rightarrow> Some ((None, Some err), w2, [CallCreateMultipartUpload create])
           | Inr m' \<Rightarrow>
               upload_loop env opts Bucket Key src2 hw (Some m') (Some nxt) (0 + 1) w2
                 [CallCreateMultipartUpload create])"
        using unfold gt lb by (simp add: new)
      show ?thesis
      proof (cases "unat MX = 0")
        case True
        then have "lastPartID (sup_counter m0) = MaxPartID (sup_counter m0)"
          by (simp add: m0_def NewPartCounter_def unat_eq_0)
        from upload_submit_cap [OF this]
        have "upload env opts r Bucket Key w =
            Some ((None, Some ErrMaxPartID), w2, [CallCreateMultipartUpload create])"
          by (simp add: u1)
        then show ?thesis
          using None True by (auto simp: MX_def [symmetric] chB)
      next
        case Mpos: False
        have cnt0: "sup_counter m0 = \<lparr>lastPartID = word_of_nat 0, MaxPartID = MX\<rparr>"
          by (simp add: m0_def NewPartCounter_def)
        have "1 \<le> int (0 + 1)" "int (0 + 1) \<le> int (length (chunks_of (nat kI) b))"
          by (simp_all add: chb)
        from S3Hasher_of_SumPart [OF this, of H algo] obtain a md where
          sum: "S3Hasher_SumPart hw (int (0 + 1)) = Some a"
            "S3Hasher_MD5SumPart hw (int (0 + 1)) = Some md"
          by (auto simp: hw_def)
        have "0 < unat MX" using Mpos by simp
        from upload_submit_ok [OF cnt0 M [folded MX_def] this sum, of Bucket Key sr b]
        obtain part where
          up: "upload_submit Bucket Key m0 hw sr b =
             Inr (m0\<lparr>sup_counter := \<lparr>lastPartID = word_of_nat (0 + 1), MaxPartID = MX\<rparr>,
                    sup_queued := sup_queued m0 @ [\<lparr>qp_part = part, qp_closer = Some sr\<rparr>]\<rparr>)"
          by blast
        define m' where "m' = m0\<lparr>sup_counter := \<lparr>lastPartID = word_of_nat (0 + 1), MaxPartID = MX\<rparr>,
                    sup_queued := sup_queued m0 @ [\<lparr>qp_part = part, qp_closer = Some sr\<rparr>]\<rparr>"
        have mu': "st_mu (sup_st m') = None" "0 < sup_workers m'"
          "0 < length (sup_queued m') + length (sup_inflight m')"
          "length (sup_inflight m') \<le> sup_workers m'"
          using wk by (simp_all add: m'_def m0_def S3UploadState_empty_def)
        have cnt': "sup_counter m' =
            \<lparr>lastPartID = word_of_nat (0 + 1), MaxPartID = opt_MaxPartID opts\<rparr>"
          by (simp add: m'_def MX_def)
        have pk: "(Some nxt = None \<and> drop k B = Source_pending src2) \<or>
             (\<exists>sr. Some nxt = Some (Inr sr) \<and>
                   SourceReader_bytes w2 sr = Inr (take (nat kI) (drop k B)) \<and>
                   drop k B \<noteq> [] \<and> Source_pending src2 = drop (nat kI) (drop k B))"
          using sr2 R s2(5) by (simp add: kI(2))
        have j1: "0 + 1 \<le> unat (opt_MaxPartID opts)" using Mpos by (simp add: MX_def)
        have D1: "length (chunks_of (nat kI) b) = 0 + 1" by (simp add: chb)
        have D2: "drop k B \<noteq> [] \<longrightarrow> length b = (0 + 1) * nat kI"
          using lb by (simp add: kI(2))
        from upload_loop_nil_mutex [OF kI(1) kI_def [symmetric] c M t s2(2,4,3) mu' cnt' j1 D1 D2 pk,
            of Bucket Key H algo "0 + 1" "[CallCreateMultipartUpload create]"]
        obtain err w' ext where
          L: "upload_loop env opts Bucket Key src2 hw (Some m') (Some nxt) (0 + 1) w2
                [CallCreateMultipartUpload create] =
                Some ((None, Some err), w', [CallCreateMultipartUpload create] @ ext)"
            "list_all is_part_call ext"
            "length (sup_inflight m') + length ext \<le> sup_workers m'"
            "err = Panic ''nil pointer dereference'' \<or>
             err = ErrMaxPartID \<and>
             unat (opt_MaxPartID opts) - (0 + 1) < length (chunks_of (nat kI) (drop k B))"
          unfolding hw_def by blast
        have U: "upload env opts r Bucket Key w =
            Some ((None, Some err), w', CallCreateMultipartUpload create # ext)"
          using L(1) unfolding u1 up by (simp add: m'_def)
        have cap: "err = Panic ''nil pointer dereference'' \<or>
            err = ErrMaxPartID \<and> unat (opt_MaxPartID opts) < length (chunks_of k B)"
          using L(4) Mpos unfolding chB by (auto simp: kI(2) MX_def)
        have le: "length ext \<le> nat (opt_ConcurrentParts opts)"
          using L(3) by (simp add: m'_def m0_def)
        show ?thesis
          using U L(2) cap None le by auto
      qed
    qed
  qed
  show ?thesis
    using s1(1,7) s2(1) nxt single multi
    unfolding cb_def [symmetric]
    by (cases "length B \<le> k") blast+
qed

subsection \<open>Multi-part uploads\<close>

lemmas upload_eval =
  upload_def upload_loop.simps TempfileSource_def MemorySource_def readerAtSource_Next_def
  int64_def chunks_of.simps NewS3Hasher_def NewHashParts_def Hash_New_def Hash_Write_def Hash_Sum_def
  S3Hasher_write_def HashParts_Write_def HashParts_Write_loop.simps HashParts_alloc_def
  HashParts_Count_def HashParts_PartSize_def HashParts_Sum_def
  S3Hasher_PartSize_def S3Hasher_SumPart_def S3Hasher_MD5SumPart_def S3Hasher_ChecksumAlgorithm_def
  S3Hasher_Sum_def S3Hasher_MD5Sum_def
  upload_submit_def UploadPart_def NewS3UploadParts_def NextPartID_def NewPartCounter_def
  setPartResults_def S3UploadState_empty_def Wait_def drain_events_def remove_nth_def
  checksum_field_def upload_finish_def putObject_def CompleteUpload_def completeParts_def
  Errors_def errors_Join_def
  Let_def

text \<open>
  Claim C6 (the code departs from it).  Take a well-behaved input with more than
  \<open>partSize\<close> bytes, a working file system, a positive part size, a non-empty copy
  buffer, a non-negative \<open>MaxPartID\<close>, at least one worker and a timer of \<open>Wait\<close> that
  does not fire.  The first slice is full and the read-ahead finds a second slice, so the
  claim promises a multi-part upload of every slice.  \<open>upload\<close> sends
  \<open>CreateMultipartUpload\<close> and queues the slices as parts, but whatever the schedule of
  the workers and the answers of the server, it never returns an upload state: if the
  creation succeeds, the run ends with a nil pointer dereference, because the first
  \<open>UploadPart\<close> request that is answered has its result recorded through
  \<open>setPartResults\<close>, which locks the mutex that the state does not have (or, when the
  input has more slices than \<open>MaxPartID\<close>, possibly with \<open>ErrMaxPartID\<close> before any
  answer).  No request other than \<open>UploadPart\<close> follows the creation, so the upload is
  never completed, and no more than \<open>ConcurrentParts\<close> part requests are sent, however
  many slices the input has.
\<close>

theorem upload_multipart_nil_mutex:
  assumes "0 < opt_PartSize opts" and "0 < opt_copyBufSize opts"
    and "0 \<le> sint (opt_MaxPartID opts)" and "World_healthy w"
    and "Input_ok r (opt_PartSize opts)"
    and "src = (if opt_UseMemoryBuffers opts then MemorySource r (opt_PartSize opts)
                else TempfileSource r (opt_PartSize opts))"
    and "B = Input_bytes r" and "k = nat (opt_PartSize opts)" and "k < length B"
    and "0 < opt_ConcurrentParts opts"
    and "\<not> (0 < opt_UploadPartTimeout opts \<and> env_timer env)"
  shows "\<exists>sr src1 w1 nxt src2 w2 create ext err w' calls.
      Source_Next (opt_copyBufSize opts) src w = Some (Inr sr, src1, w1) \<and>
      SourceReader_bytes w1 sr = Inr (take k B) \<and>
      \<not> int (length (take k B)) < opt_PartSize opts \<and>
      Source_Next (opt_copyBufSize opts) src1 w1 = Some (nxt, src2, w2) \<and>
      nxt \<noteq> Inl EOF \<and>
      upload env opts r Bucket Key w = Some ((None, Some err), w', calls) \<and>
      calls = CallCreateMultipartUpload create # ext \<and> list_all is_part_call ext \<and>
      length ext \<le> nat (opt_ConcurrentParts opts) \<and>
      (case snd (s3_CreateMultipartUpload (env_s3 env) create) of
         Some e \<Rightarrow> ext = [] \<and> err = e
       | None \<Rightarrow>
           err = Panic ''nil pointer dereference'' \<or>
           err = ErrMaxPartID \<and> unat (opt_MaxPartID opts) < length (chunks_of k B))"
proof -
  have ne: "B \<noteq> []" and gt: "\<not> length B \<le> k" using assms(9) by auto
  have full: "\<not> int (length (take k B)) < opt_PartSize opts"
    using assms(1,8,9) by simp
  from upload_dispatch [OF assms(1,2,4,5,6,7) ne assms(8), of env Bucket Key]
  show ?thesis
    using gt assms(3,10,11) full by (simp del: length_take)
qed

theorem upload_multipart_nil_mutex_witness:
  "\<exists>w' ext.
     upload env_accepting opts_small (RandomAccess [1, 2, 3, 4]) ''b'' ''k'' world_empty =
       Some ((None, Some (Panic ''nil pointer dereference'')), w',
             CallCreateMultipartUpload
               \<lparr>CreateInput_Bucket = ''b'', CreateInput_Key = ''k'',
                CreateInput_ChecksumAlgorithm = ChecksumAlgorithmSHA256\<rparr> # ext) \<and>
     list_all is_part_call ext \<and> length ext \<le> 1"
proof -
  have h1: "0 < opt_PartSize opts_small" and h2: "0 < opt_copyBufSize opts_small"
    and h3: "0 \<le> sint (opt_MaxPartID opts_small)"
    and h10: "0 < opt_ConcurrentParts opts_small"
    and h11: "\<not> (0 < opt_UploadPartTimeout opts_small \<and> env_timer env_accepting)"
    by (simp_all add: opts_small_def)
  have h4: "World_healthy world_empty" by (simp add: World_healthy_def world_empty_def)
  have h5: "Input_ok (RandomAccess [1, 2, 3, 4]) (opt_PartSize opts_small)"
    by (simp add: opts_small_def)
  have h9: "nat (opt_PartSize opts_small) < length (Input_bytes (RandomAccess [1, 2, 3, 4]))"
    by (simp add: opts_small_def)
  have ch: "chunks_of 2 [1, 2, 3, 4 :: byte] = [[1, 2], [3, 4]]"
    by (simp add: chunks_of.simps)
  have n: "nat (opt_PartSize opts_small) = 2" "unat (opt_MaxPartID opts_small) = 10000"
    "nat (opt_ConcurrentParts opts_small) = 1"
    by (simp_all add: opts_small_def)
  have cr: "upload env_accepting opts_small (RandomAccess [1, 2, 3, 4]) ''b'' ''k'' world_empty =
      Some ((None, Some err), w', CallCreateMultipartUpload create # ext) \<Longrightarrow>
      create = \<lparr>CreateInput_Bucket = ''b'', CreateInput_Key = ''k'',
                CreateInput_ChecksumAlgorithm = ChecksumAlgorithmSHA256\<rparr>" for err w' create ext
    by (simp add: upload_eval env_accepting_def opts_small_def s3_accepting_def)
  from upload_multipart_nil_mutex [OF h1 h2 h3 h4 h5 refl refl refl h9 h10 h11,
      of "''b''" "''k''"]
  show ?thesis
    unfolding n using cr by (auto simp: ch env_accepting_def s3_accepting_def)
qed

text \<open>
  The run with the one worker idle until \<open>Wait\<close> blocks: both slices are queued, part 1 is
  sent, and its answer ends the run; the second slice is never sent.
\<close>

lemma upload_two_slices_run:
  "upload env_accepting opts_small (RandomAccess [1, 2, 3, 4]) ''b'' ''k'' world_empty =
     Some ((None, Some (Panic ''nil pointer dereference'')), world_empty,
       [CallCreateMultipartUpload
          \<lparr>CreateInput_Bucket = ''b'', CreateInput_Key = ''k'',
           CreateInput_ChecksumAlgorithm = ChecksumAlgorithmSHA256\<rparr>,
        CallUploadPart
          \<lparr>UploadPartInput_Bucket = ''b'', UploadPartInput_Key = ''k'',
           UploadPartInput_UploadId = Some ''upload-1'',
           UploadPartInput_PartNumber = 1, UploadPartInput_Body = [1, 2],
           UploadPartInput_ContentMD5 = Some [1, 2],
           UploadPartInput_Checksum = Some (ChecksumAlgorithmSHA256, [1, 2])\<rparr>])"
  by (simp add: upload_eval env_accepting_def opts_small_def s3_accepting_def)

subsection \<open>The result of an upload and the errors of its state\<close>













end
